theory Spec2Isabelle
  imports Complex_Main
begin

section \<open>Conventions of the embedding\<close>

text \<open>
  The invoice application (\<^verbatim>\<open>src/app.py\<close>) is embedded function by function.

  \<^item> A Python \<^verbatim>\<open>float\<close> (column widths, font sizes, row heights, margins, all in
    millimetres or points) is idealised as a \<^typ>\<open>real\<close>: the rounding error of binary
    floating point is not part of the model.
  \<^item> A raised exception is the \<open>Inl\<close> side of a sum; \<open>Inr\<close> carries the returned value.
  \<^item> \<^verbatim>\<open>pdf.get_string_width\<close> of the PDF library is a parameter \<open>gsw\<close>: it maps the
    current font size and a text to the rendered width. \<^verbatim>\<open>pdf.set_font\<close> before a
    measurement is the font-size argument of \<open>gsw\<close>.
  \<^item> A list modified in place (\<^verbatim>\<open>col_widths[d] -= take\<close>) is returned updated.
\<close>

datatype exc = IndexError | ValueError | InvalidOperation | DivisionByZero | Overflow

text \<open>Python list indexing: a negative index counts from the end, anything else out of
  range raises \<^verbatim>\<open>IndexError\<close>.\<close>

definition py_index :: "'a list \<Rightarrow> int \<Rightarrow> exc + nat" where
  "py_index xs i =
     (let n = int (length xs); j = (if i < 0 then n + i else i)
      in if 0 \<le> j \<and> j < n then Inr (nat j) else Inl IndexError)"

section \<open>Column-width allocator\<close>

text \<open>
  The donor loop of \<^verbatim>\<open>ensure_min_col_width\<close> (lines 1013-1021):
  \<^verbatim>\<open>
  for d in donors:
      spare = max(col_widths[d] - min_keep_mm, 0)
      if spare <= 0:
          continue
      take = min(spare, deficit)
      col_widths[d] -= take
      deficit -= take
      if deficit <= 0:
          break
  \<close>
\<close>

fun donate :: "real list \<Rightarrow> int list \<Rightarrow> real \<Rightarrow> real \<Rightarrow> exc + real list" where
  "donate col_widths [] min_keep_mm deficit = Inr col_widths"
| "donate col_widths (d # ds) min_keep_mm deficit =
     (case py_index col_widths d of
        Inl e \<Rightarrow> Inl e
      | Inr k \<Rightarrow>
          (let spare = max (col_widths ! k - min_keep_mm) 0 in
           if spare \<le> 0 then donate col_widths ds min_keep_mm deficit
           else
             (let take = min spare deficit;
                  col_widths' = col_widths[k := col_widths ! k - take];
                  deficit' = deficit - take
              in if deficit' \<le> 0 then Inr col_widths'
                 else donate col_widths' ds min_keep_mm deficit')))"

text \<open>\<^verbatim>\<open>max(pdf.get_string_width(t) for t in sample_texts) + pad_mm\<close>; \<^verbatim>\<open>max\<close> of an
  empty sequence raises \<^verbatim>\<open>ValueError\<close>.\<close>

definition need_width :: "(real \<Rightarrow> string \<Rightarrow> real) \<Rightarrow> real \<Rightarrow> string list \<Rightarrow> real \<Rightarrow> exc + real" where
  "need_width gsw font_size sample_texts pad_mm =
     (case map (gsw font_size) sample_texts of
        [] \<Rightarrow> Inl ValueError
      | w # ws \<Rightarrow> Inr (fold max ws w + pad_mm))"

definition ensure_min_col_width ::
  "(real \<Rightarrow> string \<Rightarrow> real) \<Rightarrow> real list \<Rightarrow> int \<Rightarrow> string list \<Rightarrow> int list \<Rightarrow> real \<Rightarrow> real \<Rightarrow> real
     \<Rightarrow> exc + real list" where
  "ensure_min_col_width gsw col_widths target_idx sample_texts donors min_keep_mm font_size pad_mm =
     (case need_width gsw font_size sample_texts pad_mm of
        Inl e \<Rightarrow> Inl e
      | Inr need \<Rightarrow>
          (case py_index col_widths target_idx of
             Inl e \<Rightarrow> Inl e
           | Inr t \<Rightarrow>
               if col_widths ! t \<ge> need then Inr col_widths
               else
                 (case donate col_widths donors min_keep_mm (need - col_widths ! t) of
                    Inl e \<Rightarrow> Inl e
                  | Inr ws \<Rightarrow> Inr (ws[t := max (ws ! t) need]))))"

text \<open>
  The two protected columns of the table, as every allocation site of \<^verbatim>\<open>generate_pdf\<close>
  protects them (lines 1105-1106, 1137-1138, 1142-1143 and 1218-1219):
  \<^verbatim>\<open>
  col_w = ensure_min_col_width(col_w, NAPPI_COL, ["0000000000"], donors_portrait, 14.0, table_font)
  col_w = ensure_min_col_width(col_w, UNIT_PRICE_COL, ["R0000000.00", "0000000.00"], donors_portrait, 14.0, table_font)
  \<close>
  with the default \<^verbatim>\<open>pad_mm = 3.0\<close>.
\<close>

definition NAPPI_COL :: int where "NAPPI_COL = 5"
definition UNIT_PRICE_COL :: int where "UNIT_PRICE_COL = 7"
definition donors_portrait :: "int list" where "donors_portrait = [2, 3, 1, 4]"

definition protect_columns :: "(real \<Rightarrow> string \<Rightarrow> real) \<Rightarrow> real list \<Rightarrow> real \<Rightarrow> exc + real list" where
  "protect_columns gsw col_w0 font =
     (case ensure_min_col_width gsw col_w0 NAPPI_COL [''0000000000''] donors_portrait 14.0 font 3.0 of
        Inl e \<Rightarrow> Inl e
      | Inr col_w1 \<Rightarrow>
          ensure_min_col_width gsw col_w1 UNIT_PRICE_COL [''R0000000.00'', ''0000000.00'']
            donors_portrait 14.0 font 3.0)"

section \<open>Text wrapping\<close>

text \<open>
  Python's \<^verbatim>\<open>str.split()\<close> and \<^verbatim>\<open>str.strip()\<close> work on whitespace. A \<^typ>\<open>char\<close> stands
  for a code point below 256; among these the whitespace characters are the ones below.
\<close>

definition is_space :: "char \<Rightarrow> bool" where
  "is_space c =
     (let n = (of_char c :: nat)
      in (9 \<le> n \<and> n \<le> 13) \<or> (28 \<le> n \<and> n \<le> 32) \<or> n = 133 \<or> n = 160)"

fun split_acc :: "string \<Rightarrow> string \<Rightarrow> string list" where
  "split_acc cur [] = (if cur = [] then [] else [cur])"
| "split_acc cur (c # cs) =
     (if is_space c then (if cur = [] then split_acc [] cs else cur # split_acc [] cs)
      else split_acc (cur @ [c]) cs)"

definition split_ws :: "string \<Rightarrow> string list" where
  "split_ws s = split_acc [] s"

definition strip :: "string \<Rightarrow> string" where
  "strip s = rev (dropWhile is_space (rev (dropWhile is_space s)))"

text \<open>
  The character loop of \<^verbatim>\<open>wrapped_height\<close> (lines 1051-1057 and 1062-1068), on the pair
  of the line counter and the current line:
  \<^verbatim>\<open>
  for ch in w:
      t = (cur + ch)
      if width(t) <= max_w:
          cur = t
      else:
          lines += 1
          cur = ch
  \<close>
\<close>

fun pack_chars :: "(string \<Rightarrow> real) \<Rightarrow> real \<Rightarrow> nat \<times> string \<Rightarrow> string \<Rightarrow> nat \<times> string" where
  "pack_chars width max_w (lines, cur) [] = (lines, cur)"
| "pack_chars width max_w (lines, cur) (ch # cs) =
     (let t = cur @ [ch]
      in if width t \<le> max_w then pack_chars width max_w (lines, t) cs
         else pack_chars width max_w (lines + 1, [ch]) cs)"

text \<open>
  The word loop (lines 1060-1075):
  \<^verbatim>\<open>
  for w in words:
      if width(w) > max_w:
          for ch in w: ...
      else:
          t = (cur + " " + w).strip()
          if width(t) <= max_w:
              cur = t
          else:
              lines += 1
              cur = w
  \<close>
\<close>

fun pack_words :: "(string \<Rightarrow> real) \<Rightarrow> real \<Rightarrow> nat \<times> string \<Rightarrow> string list \<Rightarrow> nat \<times> string" where
  "pack_words width max_w (lines, cur) [] = (lines, cur)"
| "pack_words width max_w (lines, cur) (w # ws) =
     (if width w > max_w then pack_words width max_w (pack_chars width max_w (lines, cur) w) ws
      else
        (let t = strip (cur @ '' '' @ w)
         in if width t \<le> max_w then pack_words width max_w (lines, t) ws
            else pack_words width max_w (lines + 1, w) ws))"

definition wrapped_height :: "(real \<Rightarrow> string \<Rightarrow> real) \<Rightarrow> string \<Rightarrow> real \<Rightarrow> real \<Rightarrow> real \<Rightarrow> real" where
  "wrapped_height gsw text col_width line_hh font_size =
     (let pad = 0.8 in
      if text = [] then line_hh
      else
        (let max_w = max 0.1 (col_width - 1.6);
             words = split_ws text;
             width = gsw font_size
         in if words = [] then real (fst (pack_chars width max_w (1, []) text)) * line_hh + pad
            else real (fst (pack_words width max_w (1, []) words)) * line_hh + pad))"

section \<open>Portrait table: height estimate and auto-fit loop\<close>

text \<open>
  \<^verbatim>\<open>table_total_height\<close> (lines 1108-1118). \<^verbatim>\<open>WRAP_COLS = {1, 2, 3}\<close>; reading
  \<^verbatim>\<open>widths[i]\<close> beyond the list raises.
\<close>

definition WRAP_COLS :: "nat set" where "WRAP_COLS = {1, 2, 3}"

fun cell_heights :: "(real \<Rightarrow> string \<Rightarrow> real) \<Rightarrow> real list \<Rightarrow> real \<Rightarrow> real \<Rightarrow> nat \<Rightarrow> string list \<Rightarrow> exc + real list" where
  "cell_heights gsw widths base_h fsize i [] = Inr []"
| "cell_heights gsw widths base_h fsize i (txt # r) =
     (if i \<in> WRAP_COLS then
        (if i < length widths then
           (case cell_heights gsw widths base_h fsize (Suc i) r of
              Inl e \<Rightarrow> Inl e
            | Inr hs \<Rightarrow> Inr ((wrapped_height gsw txt (widths ! i) base_h fsize + 0.6) # hs))
         else Inl IndexError)
      else
        (case cell_heights gsw widths base_h fsize (Suc i) r of
           Inl e \<Rightarrow> Inl e
         | Inr hs \<Rightarrow> Inr (base_h # hs)))"

definition row_max :: "real \<Rightarrow> real list \<Rightarrow> real" where
  "row_max base_h heights = (case heights of [] \<Rightarrow> base_h | h # hs \<Rightarrow> fold max hs h)"

fun rows_height :: "(real \<Rightarrow> string \<Rightarrow> real) \<Rightarrow> real list \<Rightarrow> real \<Rightarrow> real \<Rightarrow> real \<Rightarrow> string list list \<Rightarrow> exc + real" where
  "rows_height gsw widths base_h fsize h [] = Inr h"
| "rows_height gsw widths base_h fsize h (r # rs) =
     (case cell_heights gsw widths base_h fsize 0 r of
        Inl e \<Rightarrow> Inl e
      | Inr hs \<Rightarrow> rows_height gsw widths base_h fsize (h + row_max base_h hs) rs)"

definition table_total_height ::
  "(real \<Rightarrow> string \<Rightarrow> real) \<Rightarrow> real \<Rightarrow> string list list \<Rightarrow> real \<Rightarrow> real \<Rightarrow> real list \<Rightarrow> exc + real" where
  "table_total_height gsw header_h rows fsize base_h widths =
     (case rows_height gsw widths base_h fsize header_h rows of
        Inl e \<Rightarrow> Inl e
      | Inr h \<Rightarrow> Inr (h + header_h))"

text \<open>
  What the loop reads and never changes: the width measure, the page width \<^verbatim>\<open>pdf.w\<close>,
  \<^verbatim>\<open>free_height()\<close> (the page height, the bottom margin and the cursor \<^verbatim>\<open>y\<close> stay as they
  are while the loop runs: \<^verbatim>\<open>set_margins\<close> changes the left, top and right margin only,
  and \<^verbatim>\<open>y\<close> is put back by \<^verbatim>\<open>pdf.set_y(cur_y)\<close>), the header height, the configured font
  floor and the rows. What it changes: the font size, the row height, the left and right
  margin and the column widths.
\<close>

record portrait_env =
  env_gsw :: "real \<Rightarrow> string \<Rightarrow> real"
  env_page_w :: real
  env_free_height :: real
  env_header_h :: real
  env_min_font :: real
  env_rows :: "string list list"

record fit_state =
  table_font :: real
  row_h :: real
  l_margin :: real
  r_margin :: real
  col_w :: "real list"

definition min_row_h :: real where "min_row_h = 3.2"

definition weights_portrait :: "real list" where
  "weights_portrait = [1.1, 1.8, 3.4, 3.4, 0.8, 1.2, 0.8, 1.2, 1.3]"

text \<open>\<^verbatim>\<open>[avail_w * (w / total_w) for w in weights]\<close> with \<^verbatim>\<open>total_w = sum(weights)\<close>.\<close>

definition weighted_widths :: "real \<Rightarrow> real list" where
  "weighted_widths avail_w =
     map (\<lambda>w. avail_w * (w / sum_list weights_portrait)) weights_portrait"

text \<open>The last two statements of the loop body (lines 1142-1143).\<close>

definition reprotect :: "portrait_env \<Rightarrow> fit_state \<Rightarrow> exc + fit_state option" where
  "reprotect env st =
     (case protect_columns (env_gsw env) (col_w st) (table_font st) of
        Inl e \<Rightarrow> Inl e
      | Inr cw \<Rightarrow> Inr (Some (st\<lparr>col_w := cw\<rparr>)))"

text \<open>
  One run of the loop body (lines 1124-1143); \<open>None\<close> is \<^verbatim>\<open>break\<close>.
  \<^verbatim>\<open>
  shrunk = False
  if table_font > min_font_portrait:
      table_font -= 0.2
      shrunk = True
  if row_h > min_row_h:
      row_h -= 0.08
      shrunk = True
  if not shrunk:
      cur_y = pdf.get_y()
      if pdf.l_margin > 6 or pdf.r_margin > 6:
          pdf.set_margins(max(pdf.l_margin - 1, 6), pdf.t_margin, max(pdf.r_margin - 1, 6))
          avail_w = pdf.w - pdf.l_margin - pdf.r_margin
          col_w = [avail_w * (w / total_w) for w in weights]
          col_w = ensure_min_col_width(col_w, NAPPI_COL, ...)
          col_w = ensure_min_col_width(col_w, UNIT_PRICE_COL, ...)
          pdf.set_y(cur_y)
      else:
          break
  col_w = ensure_min_col_width(col_w, NAPPI_COL, ...)
  col_w = ensure_min_col_width(col_w, UNIT_PRICE_COL, ...)
  \<close>
\<close>

definition shrink_body :: "portrait_env \<Rightarrow> fit_state \<Rightarrow> exc + fit_state option" where
  "shrink_body env st =
     (let shrunk1 = (table_font st > env_min_font env);
          st1 = (if shrunk1 then st\<lparr>table_font := table_font st - 0.2\<rparr> else st);
          shrunk2 = (row_h st1 > min_row_h);
          st2 = (if shrunk2 then st1\<lparr>row_h := row_h st1 - 0.08\<rparr> else st1)
      in if \<not> (shrunk1 \<or> shrunk2) then
           (if l_margin st2 > 6 \<or> r_margin st2 > 6 then
              (let st3 = st2\<lparr>l_margin := max (l_margin st2 - 1) 6,
                              r_margin := max (r_margin st2 - 1) 6\<rparr>;
                   avail_w = env_page_w env - l_margin st3 - r_margin st3
               in case protect_columns (env_gsw env) (weighted_widths avail_w) (table_font st3) of
                    Inl e \<Rightarrow> Inl e
                  | Inr cw \<Rightarrow> reprotect env (st3\<lparr>col_w := cw\<rparr>))
            else Inr None)
         else reprotect env st2)"

text \<open>The loop condition \<^verbatim>\<open>table_total_height(table_font, row_h, col_w) > free_height()\<close>.\<close>

definition overflows :: "portrait_env \<Rightarrow> fit_state \<Rightarrow> exc + bool" where
  "overflows env st =
     (case table_total_height (env_gsw env) (env_header_h env) (env_rows env)
             (table_font st) (row_h st) (col_w st) of
        Inl e \<Rightarrow> Inl e
      | Inr h \<Rightarrow> Inr (h > env_free_height env))"

text \<open>
  What is left to shrink, counted in steps: font steps of 0.2, row-height steps of 0.08 and
  margin steps of 1 mm (both side margins shrink in the same step).
\<close>

definition font_steps :: "portrait_env \<Rightarrow> fit_state \<Rightarrow> nat" where
  "font_steps env st = nat \<lceil>(table_font st - env_min_font env) / 0.2\<rceil>"

definition row_steps :: "fit_state \<Rightarrow> nat" where
  "row_steps st = nat \<lceil>(row_h st - min_row_h) / 0.08\<rceil>"

definition margin_steps :: "fit_state \<Rightarrow> nat" where
  "margin_steps st = nat \<lceil>max (l_margin st) (r_margin st) - 6\<rceil>"

definition steps_left :: "portrait_env \<Rightarrow> fit_state \<Rightarrow> nat" where
  "steps_left env st = font_steps env st + row_steps st + margin_steps st"

text \<open>
  The loop itself (line 1123), \<^verbatim>\<open>while table_total_height(...) > free_height(): ...\<close>. The
  result carries, besides the final state, the number of times the body ran (the run that
  ends in \<^verbatim>\<open>break\<close> included). The termination proof is the proof that every run of the
  body that does not break removes at least one of the steps left.
\<close>

function shrink_loop :: "portrait_env \<Rightarrow> fit_state \<Rightarrow> exc + (nat \<times> fit_state)" where
  "shrink_loop env st =
     (case overflows env st of
        Inl e \<Rightarrow> Inl e
      | Inr False \<Rightarrow> Inr (0, st)
      | Inr True \<Rightarrow>
          (case shrink_body env st of
             Inl e \<Rightarrow> Inl e
           | Inr None \<Rightarrow> Inr (1, st)
           | Inr (Some st') \<Rightarrow>
               (case shrink_loop env st' of
                  Inl e \<Rightarrow> Inl e
                | Inr (n, st'') \<Rightarrow> Inr (Suc n, st''))))"
  by pat_completeness auto
termination
proof (relation "measure (\<lambda>(env, st). steps_left env st)")
  show "wf (measure (\<lambda>(env, st). steps_left env st))" by simp
next
  fix env :: portrait_env and st st' :: fit_state and b :: bool and r :: "fit_state option"
  assume body: "shrink_body env st = Inr r" and r: "r = Some st'"
  have dec: "nat \<lceil>x - 1\<rceil> < nat \<lceil>x\<rceil>" if "0 < x" for x :: real
  proof -
    from that have "0 < \<lceil>x\<rceil>" by simp
    moreover have "\<lceil>x - 1\<rceil> = \<lceil>x\<rceil> - 1" by simp
    ultimately show ?thesis by simp
  qed
  have rep: "table_font s' = table_font s \<and> row_h s' = row_h s \<and> l_margin s' = l_margin s
      \<and> r_margin s' = r_margin s" if "reprotect env s = Inr (Some s')" for s s'
    using that by (auto simp: reprotect_def split: sum.splits)
  have "steps_left env st' < steps_left env st"
  proof (cases "table_font st > env_min_font env")
    case f: True
    let ?s1 = "st\<lparr>table_font := table_font st - 0.2\<rparr>"
    let ?s2 = "if row_h st > min_row_h then ?s1\<lparr>row_h := row_h st - 0.08\<rparr> else ?s1"
    from body r f have "reprotect env ?s2 = Inr (Some st')"
      by (simp add: shrink_body_def Let_def split: if_splits)
    from rep [OF this] have eq: "table_font st' = table_font st - 0.2"
      "row_h st' \<le> row_h st" "l_margin st' = l_margin st" "r_margin st' = r_margin st"
      by (simp_all split: if_splits)
    have e: "(table_font st' - env_min_font env) / 0.2 = (table_font st - env_min_font env) / 0.2 - 1"
      unfolding eq(1) by (simp add: field_simps)
    have "font_steps env st' < font_steps env st"
      unfolding font_steps_def e by (rule dec) (use f in simp)
    moreover have "row_steps st' \<le> row_steps st"
      unfolding row_steps_def using eq(2)
      by (intro nat_mono ceiling_mono divide_right_mono) simp_all
    moreover have "margin_steps st' = margin_steps st"
      using eq(3,4) by (simp add: margin_steps_def)
    ultimately show ?thesis by (simp add: steps_left_def)
  next
    case f: False
    show ?thesis
    proof (cases "row_h st > min_row_h")
      case rw: True
      from body r f rw have "reprotect env (st\<lparr>row_h := row_h st - 0.08\<rparr>) = Inr (Some st')"
        by (simp add: shrink_body_def Let_def split: if_splits)
      from rep [OF this] have eq: "table_font st' = table_font st"
        "row_h st' = row_h st - 0.08" "l_margin st' = l_margin st" "r_margin st' = r_margin st"
        by simp_all
      have e: "(row_h st' - min_row_h) / 0.08 = (row_h st - min_row_h) / 0.08 - 1"
        unfolding eq(2) by (simp add: field_simps)
      have "row_steps st' < row_steps st"
        unfolding row_steps_def e by (rule dec) (use rw in simp)
      with eq show ?thesis by (simp add: steps_left_def font_steps_def margin_steps_def)
    next
      case rw: False
      let ?s3 = "st\<lparr>l_margin := max (l_margin st - 1) 6, r_margin := max (r_margin st - 1) 6\<rparr>"
      from body r f rw have m: "l_margin st > 6 \<or> r_margin st > 6"
        by (auto simp: shrink_body_def Let_def split: if_splits)
      with body r f rw obtain cw where "reprotect env (?s3\<lparr>col_w := cw\<rparr>) = Inr (Some st')"
        by (auto simp: shrink_body_def Let_def split: if_splits sum.splits)
      from rep [OF this] have eq: "table_font st' = table_font st"
        "row_h st' = row_h st" "l_margin st' = max (l_margin st - 1) 6"
        "r_margin st' = max (r_margin st - 1) 6"
        by simp_all
      let ?M = "max (l_margin st) (r_margin st)"
      have M': "max (l_margin st') (r_margin st') = max (?M - 1) 6"
        using eq(3,4) by (simp add: max_def)
      from m have pos: "0 < ?M - 6" by (auto simp: max_def)
      have "nat \<lceil>max (?M - 1) 6 - 6\<rceil> \<le> nat \<lceil>?M - 6 - 1\<rceil>"
      proof (cases "?M - 1 \<le> 6")
        case True
        then have "max (?M - 1) 6 - 6 = 0" by simp
        then show ?thesis by simp
      next
        case False
        then have "max (?M - 1) 6 - 6 = ?M - 6 - 1" by (auto simp: max_def)
        then show ?thesis by simp
      qed
      also have "\<dots> < nat \<lceil>?M - 6\<rceil>" using dec [OF pos] .
      finally have "margin_steps st' < margin_steps st"
        unfolding margin_steps_def M' .
      with eq show ?thesis by (simp add: steps_left_def font_steps_def row_steps_def)
    qed
  qed
  then show "((env, st'), (env, st)) \<in> measure (\<lambda>(env, st). steps_left env st)" by simp
qed


text \<open>
  The start of the portrait branch (lines 1083-1106). The margins come from
  \<^verbatim>\<open>pdf.set_margins(6, 6, 6)\<close> in compact mode and \<^verbatim>\<open>pdf.set_margins(10, 10, 10)\<close>
  otherwise (lines 906-909); the configured floor of the font is clamped by
  \<^verbatim>\<open>max(5.0, min(10.0, min_font_portrait))\<close>.
\<close>

definition portrait_env_of ::
  "(real \<Rightarrow> string \<Rightarrow> real) \<Rightarrow> real \<Rightarrow> real \<Rightarrow> bool \<Rightarrow> real \<Rightarrow> string list list \<Rightarrow> portrait_env" where
  "portrait_env_of gsw page_w free is_compact min_font_var rows =
     \<lparr>env_gsw = gsw, env_page_w = page_w, env_free_height = free,
      env_header_h = (if \<not> is_compact then 5.6 else 5.2),
      env_min_font = max 5.0 (min 10.0 min_font_var),
      env_rows = rows\<rparr>"

definition portrait_init :: "portrait_env \<Rightarrow> bool \<Rightarrow> exc + fit_state" where
  "portrait_init env is_compact =
     (let margin = (if is_compact then 6 else 10);
          avail_w = env_page_w env - margin - margin;
          font = (if \<not> is_compact then 8.2 else 7.8)
      in case protect_columns (env_gsw env) (weighted_widths avail_w) font of
           Inl e \<Rightarrow> Inl e
         | Inr cw \<Rightarrow>
             Inr \<lparr>table_font = font, row_h = (if \<not> is_compact then 4.4 else 4.0),
                  l_margin = margin, r_margin = margin, col_w = cw\<rparr>)"

definition portrait_fit :: "portrait_env \<Rightarrow> bool \<Rightarrow> exc + (nat \<times> fit_state)" where
  "portrait_fit env is_compact =
     (case portrait_init env is_compact of
        Inl e \<Rightarrow> Inl e
      | Inr st \<Rightarrow> shrink_loop env st)"

text \<open>The protected-column guarantee for a width list at a font size: the product-code
  column (index 5) and the unit-price column (index 7) are at least as wide as their sample
  texts plus the 3 mm of padding.\<close>

definition protected_ok :: "(real \<Rightarrow> string \<Rightarrow> real) \<Rightarrow> real \<Rightarrow> real list \<Rightarrow> bool" where
  "protected_ok gsw font ws \<longleftrightarrow>
     gsw font ''0000000000'' + 3.0 \<le> ws ! 5 \<and> gsw font ''R0000000.00'' + 3.0 \<le> ws ! 7"

text \<open>
  The iteration bound in the specification's words:
  \<open>(baseFontSize - minFontSize)/step + (baseRowHeight - minRowHeight)/step + (margin - marginFloor)\<close>.
\<close>

definition spec_iteration_bound :: "portrait_env \<Rightarrow> fit_state \<Rightarrow> real" where
  "spec_iteration_bound env st =
     (table_font st - env_min_font env) / 0.2 + (row_h st - min_row_h) / 0.08 + (l_margin st - 6)"

text \<open>
  A width measure in the manner of the PDF library's core fonts, for concrete runs: a
  character width in thousandths of the font size (digits 556, blank and full stop 278,
  \<open>R\<close> 722, as in Helvetica; 556 for any other character), the font size given in points on
  a page measured in millimetres.
\<close>

definition sample_cw :: "char \<Rightarrow> real" where
  "sample_cw c =
     (if c = CHR '' '' \<or> c = CHR ''.'' then 278 else if c = CHR ''R'' then 722 else 556)"

definition sample_gsw :: "real \<Rightarrow> string \<Rightarrow> real" where
  "sample_gsw font_size_pt s = sum_list (map sample_cw s) * (font_size_pt / (72 / 25.4)) / 1000"

text \<open>
  A concrete portrait run: an A4 page (210 mm wide), ten line items whose text columns are
  still blank, 40 mm of free height below the patient block, normal density. The start
  state is the one \<^verbatim>\<open>generate_pdf\<close> builds for this page (font 8.2, row height 4.4,
  margins of 10 mm, the weighted widths after the first allocation).
\<close>

definition blank_rows :: "string list list" where
  "blank_rows = replicate 10 [''2024-01-01'', [], [], [], [], [], ''1'', [], ''0.00'']"

definition demo_env :: "real \<Rightarrow> portrait_env" where
  "demo_env min_font_var = portrait_env_of sample_gsw 210 40 False min_font_var blank_rows"

definition demo_start :: fit_state where
  "demo_start = \<lparr>table_font = 8.2, row_h = 4.4, l_margin = 10, r_margin = 10,
     col_w = [209 / 15, 114 / 5, 15306563 / 450000, 646 / 15, 152 / 15,
              858773 / 45000, 152 / 15, 9165707 / 450000, 247 / 15]\<rparr>"

text \<open>
  Character-by-character packing in the specification's words, as the list of lines it
  produces: a character joins the current line while the line stays within the width, and
  otherwise closes it and starts the next line. The source keeps only the number of lines
  and the current line.
\<close>

fun char_lines :: "(string \<Rightarrow> real) \<Rightarrow> real \<Rightarrow> string \<Rightarrow> string \<Rightarrow> string list" where
  "char_lines width max_w cur [] = [cur]"
| "char_lines width max_w cur (ch # cs) =
     (if width (cur @ [ch]) \<le> max_w then char_lines width max_w (cur @ [ch]) cs
      else cur # char_lines width max_w [ch] cs)"

text \<open>A text without whitespace at either end (every word that \<^verbatim>\<open>split()\<close> returns is one).\<close>

definition trimmed :: "string \<Rightarrow> bool" where
  "trimmed s \<longleftrightarrow> s = [] \<or> (\<not> is_space (hd s) \<and> \<not> is_space (last s))"

section \<open>Decimal arithmetic\<close>

text \<open>
  Python's \<^verbatim>\<open>decimal.Decimal\<close> under the default context, which the application never
  changes: 28 significant digits, rounding half-even, exponents between -999999 and 999999,
  and the traps \<^verbatim>\<open>InvalidOperation\<close>, \<^verbatim>\<open>DivisionByZero\<close> and \<^verbatim>\<open>Overflow\<close> (a trapped
  signal is a raised exception; the other signals only set flags and are left out). A finite
  value is a sign (\<open>True\<close> for minus), a coefficient and an exponent; a NaN carries its
  sign and its diagnostic digits as a number (0 when it has none). Every arithmetic operation computes the exact result and hands
  it to \<open>dec_fix\<close>, which rounds it to the context. Rounding a coefficient \<open>c\<close> by \<open>k\<close>
  digits is written on the quotient and remainder of \<open>c\<close> by \<open>10 ^ k\<close>.
\<close>

datatype decimal = Finite bool nat int | Infinite bool | NaN bool nat | SNaN bool nat

definition prec :: nat where "prec = 28"
definition Emax :: int where "Emax = 999999"
definition Emin :: int where "Emin = - 999999"
definition Etiny :: int where "Etiny = Emin - int prec + 1"
definition Etop :: int where "Etop = Emax - int prec + 1"

definition and_then :: "exc + 'a \<Rightarrow> ('a \<Rightarrow> exc + 'b) \<Rightarrow> exc + 'b" where
  "and_then m f = (case m of Inl e \<Rightarrow> Inl e | Inr x \<Rightarrow> f x)"

fun ndigits :: "nat \<Rightarrow> nat" where
  "ndigits n = (if n < 10 then 1 else Suc (ndigits (n div 10)))"

definition round_half_even :: "nat \<Rightarrow> nat \<Rightarrow> nat" where
  "round_half_even c k =
     (let q = c div 10 ^ k; r = c mod 10 ^ k
      in if 2 * r > 10 ^ k \<or> (2 * r = 10 ^ k \<and> odd q) then q + 1 else q)"

definition round_half_up :: "nat \<Rightarrow> nat \<Rightarrow> nat" where
  "round_half_up c k =
     (let q = c div 10 ^ k; r = c mod 10 ^ k
      in if 2 * r \<ge> 10 ^ k then q + 1 else q)"

fun dec_fix :: "decimal \<Rightarrow> exc + decimal" where
  "dec_fix (Finite s c e) =
     (if c = 0 then Inr (Finite s 0 (min (max e Etiny) Emax))
      else
        (let exp_min0 = int (ndigits c) + e - int prec
         in if exp_min0 > Etop then Inl Overflow
            else
              (let exp_min = max exp_min0 Etiny
               in if e < exp_min then
                    (let coeff0 = round_half_even c (nat (exp_min - e));
                         coeff = (if ndigits coeff0 > prec then coeff0 div 10 else coeff0);
                         exp_min' = (if ndigits coeff0 > prec then exp_min + 1 else exp_min)
                     in if exp_min' > Etop then Inl Overflow
                        else Inr (Finite s coeff exp_min'))
                  else Inr (Finite s c e))))"
| "dec_fix d = Inr d"

text \<open>\<^verbatim>\<open>_fix_nan\<close>: diagnostic digits beyond the precision are cut off at the front.\<close>

definition fix_nan :: "nat \<Rightarrow> nat" where
  "fix_nan p = (if p \<noteq> 0 \<and> ndigits p > prec then p mod 10 ^ prec else p)"

definition check_nans :: "decimal \<Rightarrow> decimal \<Rightarrow> exc + decimal option" where
  "check_nans a b =
     (case a of
        SNaN s p \<Rightarrow> Inl InvalidOperation
      | _ \<Rightarrow>
          (case b of
             SNaN s p \<Rightarrow> Inl InvalidOperation
           | _ \<Rightarrow>
               (case a of
                  NaN s p \<Rightarrow> Inr (Some (NaN s (fix_nan p)))
                | _ \<Rightarrow>
                    (case b of NaN s p \<Rightarrow> Inr (Some (NaN s (fix_nan p))) | _ \<Rightarrow> Inr None))))"

fun is_zero :: "decimal \<Rightarrow> bool" where
  "is_zero (Finite s c e) = (c = 0)"
| "is_zero d = False"

fun dec_sign :: "decimal \<Rightarrow> bool" where
  "dec_sign (Finite s c e) = s"
| "dec_sign (Infinite s) = s"
| "dec_sign (NaN s p) = s"
| "dec_sign (SNaN s p) = s"

fun mul_finite :: "decimal \<Rightarrow> decimal \<Rightarrow> exc + decimal" where
  "mul_finite (Finite s1 c1 e1) (Finite s2 c2 e2) = dec_fix (Finite (s1 \<noteq> s2) (c1 * c2) (e1 + e2))"
| "mul_finite (Infinite s1) b = (if is_zero b then Inl InvalidOperation else Inr (Infinite (s1 \<noteq> dec_sign b)))"
| "mul_finite a (Infinite s2) = (if is_zero a then Inl InvalidOperation else Inr (Infinite (dec_sign a \<noteq> s2)))"
| "mul_finite a b = Inl InvalidOperation"

definition dec_mul :: "decimal \<Rightarrow> decimal \<Rightarrow> exc + decimal" where
  "dec_mul a b =
     and_then (check_nans a b) (\<lambda>r. case r of Some n \<Rightarrow> Inr n | None \<Rightarrow> mul_finite a b)"

fun add_finite :: "decimal \<Rightarrow> decimal \<Rightarrow> exc + decimal" where
  "add_finite (Finite s1 c1 e1) (Finite s2 c2 e2) =
     (let e = min e1 e2;
          v = (if s1 then - 1 else 1) * int c1 * 10 ^ nat (e1 - e)
            + (if s2 then - 1 else 1) * int c2 * 10 ^ nat (e2 - e)
      in if c1 = 0 \<and> c2 = 0 then dec_fix (Finite (s1 \<and> s2) 0 e)
         else if v = 0 then dec_fix (Finite False 0 e)
         else dec_fix (Finite (v < 0) (nat \<bar>v\<bar>) e))"
| "add_finite (Infinite s1) (Infinite s2) = (if s1 \<noteq> s2 then Inl InvalidOperation else Inr (Infinite s1))"
| "add_finite (Infinite s1) b = Inr (Infinite s1)"
| "add_finite a (Infinite s2) = Inr (Infinite s2)"
| "add_finite a b = Inl InvalidOperation"

definition dec_add :: "decimal \<Rightarrow> decimal \<Rightarrow> exc + decimal" where
  "dec_add a b =
     and_then (check_nans a b) (\<lambda>r. case r of Some n \<Rightarrow> Inr n | None \<Rightarrow> add_finite a b)"

fun copy_negate :: "decimal \<Rightarrow> decimal" where
  "copy_negate (Finite s c e) = Finite (\<not> s) c e"
| "copy_negate (Infinite s) = Infinite (\<not> s)"
| "copy_negate (NaN s p) = NaN (\<not> s) p"
| "copy_negate (SNaN s p) = SNaN (\<not> s) p"

definition dec_sub :: "decimal \<Rightarrow> decimal \<Rightarrow> exc + decimal" where
  "dec_sub a b =
     and_then (check_nans a b)
       (\<lambda>r. case r of Some n \<Rightarrow> Inr n | None \<Rightarrow> add_finite a (copy_negate b))"

function strip_zeros :: "nat \<Rightarrow> int \<Rightarrow> int \<Rightarrow> nat \<times> int" where
  "strip_zeros coeff ex ideal_exp =
     (if ex < ideal_exp \<and> coeff mod 10 = 0 then strip_zeros (coeff div 10) (ex + 1) ideal_exp
      else (coeff, ex))"
  by pat_completeness auto
termination
  by (relation "measure (\<lambda>(coeff, ex, ideal_exp). nat (ideal_exp - ex))") auto

fun div_finite :: "decimal \<Rightarrow> decimal \<Rightarrow> exc + decimal" where
  "div_finite (Finite s1 c1 e1) (Finite s2 c2 e2) =
     (if c2 = 0 then (if c1 = 0 then Inl InvalidOperation else Inl DivisionByZero)
      else if c1 = 0 then dec_fix (Finite (s1 \<noteq> s2) 0 (e1 - e2))
      else
        (let shift = int (ndigits c2) - int (ndigits c1) + int prec + 1;
             ex = e1 - e2 - shift;
             num = (if shift \<ge> 0 then c1 * 10 ^ nat shift else c1);
             den = (if shift \<ge> 0 then c2 else c2 * 10 ^ nat (- shift));
             coeff = num div den;
             remainder = num mod den;
             ce = (if remainder \<noteq> 0 then ((if coeff mod 5 = 0 then coeff + 1 else coeff), ex)
                   else strip_zeros coeff ex (e1 - e2))
         in dec_fix (Finite (s1 \<noteq> s2) (fst ce) (snd ce))))"
| "div_finite (Infinite s1) (Infinite s2) = Inl InvalidOperation"
| "div_finite (Infinite s1) b = Inr (Infinite (s1 \<noteq> dec_sign b))"
| "div_finite a (Infinite s2) = Inr (Finite (dec_sign a \<noteq> s2) 0 Etiny)"
| "div_finite a b = Inl InvalidOperation"

definition dec_div :: "decimal \<Rightarrow> decimal \<Rightarrow> exc + decimal" where
  "dec_div a b =
     and_then (check_nans a b) (\<lambda>r. case r of Some n \<Rightarrow> Inr n | None \<Rightarrow> div_finite a b)"

fun quantize_cents :: "decimal \<Rightarrow> exc + decimal" where
  "quantize_cents (SNaN s p) = Inl InvalidOperation"
| "quantize_cents (NaN s p) = Inr (NaN s (fix_nan p))"
| "quantize_cents (Infinite s) = Inl InvalidOperation"
| "quantize_cents (Finite s c e) =
     (if c = 0 then dec_fix (Finite s 0 (- 2))
      else if int (ndigits c) + e - 1 > Emax then Inl InvalidOperation
      else if int (ndigits c) + e - 1 - (- 2) + 1 > int prec then Inl InvalidOperation
      else
        (let coeff = (if e \<ge> - 2 then c * 10 ^ nat (e + 2) else round_half_up c (nat (- 2 - e)))
         in if int (ndigits coeff) + (- 2) - 1 > Emax then Inl InvalidOperation
            else if ndigits coeff > prec then Inl InvalidOperation
            else dec_fix (Finite s coeff (- 2))))"

fun dec_eq :: "decimal \<Rightarrow> decimal \<Rightarrow> bool" where
  "dec_eq (Finite s1 c1 e1) (Finite s2 c2 e2) =
     ((if s1 then - 1 else 1) * int c1 * 10 ^ nat (e1 - min e1 e2)
        = (if s2 then - 1 else 1) * int c2 * 10 ^ nat (e2 - min e1 e2))"
| "dec_eq (Infinite s1) (Infinite s2) = (s1 = s2)"
| "dec_eq a b = False"

definition py_eq :: "decimal \<Rightarrow> decimal \<Rightarrow> exc + bool" where
  "py_eq a b = and_then (check_nans a b) (\<lambda>r. case r of Some n \<Rightarrow> Inr False | None \<Rightarrow> Inr (dec_eq a b))"


subsection \<open>Reading and printing decimals\<close>

text \<open>
  \<^verbatim>\<open>Decimal(text)\<close>: the text is stripped of surrounding whitespace and of every underscore;
  what remains is an optional sign followed by a number (digits with an optional point and
  fraction, at least one digit in all, and an optional exponent \<open>E\<close> with optional sign), or
  by \<open>Inf\<close> or \<open>Infinity\<close>, or by \<open>NaN\<close> or \<open>sNaN\<close> with optional diagnostic digits; letters
  in either case. Anything else raises \<^verbatim>\<open>InvalidOperation\<close>. The conversion is exact: the
  context does not round it.
\<close>

definition is_digit :: "char \<Rightarrow> bool" where
  "is_digit c = (let n = (of_char c :: nat) in 48 \<le> n \<and> n \<le> 57)"

definition digit_val :: "char \<Rightarrow> nat" where
  "digit_val c = of_char c - 48"

definition digits_val :: "string \<Rightarrow> nat" where
  "digits_val ds = foldl (\<lambda>a c. 10 * a + digit_val c) 0 ds"

definition lower_c :: "char \<Rightarrow> char" where
  "lower_c c = (let n = (of_char c :: nat) in if 65 \<le> n \<and> n \<le> 90 then char_of (n + 32) else c)"

definition parse_exponent :: "string \<Rightarrow> int option" where
  "parse_exponent r =
     (case r of
        [] \<Rightarrow> Some 0
      | c # r1 \<Rightarrow>
          if lower_c c = CHR ''e'' then
            (let neg = (r1 \<noteq> [] \<and> hd r1 = CHR ''-'');
                 ds = (if r1 \<noteq> [] \<and> (hd r1 = CHR ''-'' \<or> hd r1 = CHR ''+'') then tl r1 else r1)
             in if ds \<noteq> [] \<and> list_all is_digit ds
                then Some ((if neg then - 1 else 1) * int (digits_val ds))
                else None)
          else None)"

definition parse_number :: "bool \<Rightarrow> string \<Rightarrow> decimal option" where
  "parse_number sg r =
     (let ip = takeWhile is_digit r;
          r1 = dropWhile is_digit r;
          has_dot = (r1 \<noteq> [] \<and> hd r1 = CHR ''.'');
          fp = (if has_dot then takeWhile is_digit (tl r1) else []);
          r2 = (if has_dot then dropWhile is_digit (tl r1) else r1)
      in if ip = [] \<and> fp = [] then None
         else
           (case parse_exponent r2 of
              None \<Rightarrow> None
            | Some ex \<Rightarrow> Some (Finite sg (digits_val (ip @ fp)) (ex - int (length fp)))))"

definition Decimal_of_str :: "string \<Rightarrow> exc + decimal" where
  "Decimal_of_str v =
     (let t = filter (\<lambda>c. c \<noteq> CHR ''_'') (strip v);
          sg = (t \<noteq> [] \<and> hd t = CHR ''-'');
          r = (if t \<noteq> [] \<and> (hd t = CHR ''-'' \<or> hd t = CHR ''+'') then tl t else t);
          l = map lower_c r
      in if l = ''inf'' \<or> l = ''infinity'' then Inr (Infinite sg)
         else if take 3 l = ''nan'' \<and> list_all is_digit (drop 3 l) then Inr (NaN sg (digits_val (drop 3 l)))
         else if take 4 l = ''snan'' \<and> list_all is_digit (drop 4 l) then Inr (SNaN sg (digits_val (drop 4 l)))
         else (case parse_number sg r of None \<Rightarrow> Inl InvalidOperation | Some d \<Rightarrow> Inr d))"

text \<open>
  \<^verbatim>\<open>money_to_decimal\<close> (lines 170-176):
  \<^verbatim>\<open>
  clean = str(s).strip().replace(CURRENCY_PREFIX, "").replace(",", "")
  if clean == "":
      raise InvalidOperation
  return Decimal(clean)
  \<close>
  with \<^verbatim>\<open>CURRENCY_PREFIX = "R"\<close>.
\<close>

definition money_to_decimal :: "string \<Rightarrow> exc + decimal" where
  "money_to_decimal s =
     (let clean = filter (\<lambda>c. c \<noteq> CHR '','') (filter (\<lambda>c. c \<noteq> CHR ''R'') (strip s))
      in if clean = [] then Inl InvalidOperation else Decimal_of_str clean)"

text \<open>
  \<^verbatim>\<open>str(d)\<close> of a decimal, which is also what \<^verbatim>\<open>f"{total}"\<close> writes: plain notation when
  the exponent is at most 0 and the number is not too small, scientific notation otherwise.
\<close>

definition digit_char :: "nat \<Rightarrow> char" where
  "digit_char d = ''0123456789'' ! d"

fun digits_of :: "nat \<Rightarrow> string" where
  "digits_of n =
     (if n < 10 then [digit_char n] else digits_of (n div 10) @ [digit_char (n mod 10)])"

fun dec_str :: "decimal \<Rightarrow> string" where
  "dec_str (Finite s c e) =
     (let ds = digits_of c;
          n = int (length ds);
          leftdigits = e + n;
          dotplace = (if e \<le> 0 \<and> leftdigits > - 6 then leftdigits else 1);
          intpart = (if dotplace \<le> 0 then ''0''
                     else if dotplace \<ge> n then ds @ replicate (nat (dotplace - n)) CHR ''0''
                     else take (nat dotplace) ds);
          fracpart = (if dotplace \<le> 0 then ''.'' @ replicate (nat (- dotplace)) CHR ''0'' @ ds
                      else if dotplace \<ge> n then []
                      else ''.'' @ drop (nat dotplace) ds);
          ex = (if leftdigits = dotplace then []
                else ''E'' @ (if leftdigits - dotplace < 0 then ''-'' else ''+'')
                       @ digits_of (nat \<bar>leftdigits - dotplace\<bar>))
      in (if s then ''-'' else []) @ intpart @ fracpart @ ex)"
| "dec_str (Infinite s) = (if s then ''-'' else []) @ ''Infinity''"
| "dec_str (NaN s p) = (if s then ''-'' else []) @ ''NaN'' @ (if p = 0 then [] else digits_of p)"
| "dec_str (SNaN s p) = (if s then ''-'' else []) @ ''sNaN'' @ (if p = 0 then [] else digits_of p)"

subsection \<open>Line totals and invoice totals\<close>

text \<open>
  \<^verbatim>\<open>update_total\<close> (lines 831-842). The \<^verbatim>\<open>try\<close> block catches \<^verbatim>\<open>InvalidOperation\<close> only,
  whether it comes from reading a field, from the product or from \<^verbatim>\<open>quantize\<close>:
  \<^verbatim>\<open>
  try:
      qty = money_to_decimal(fields['Qty'].get())
      price_incl = money_to_decimal(fields['Price'].get())
      total = (qty * price_incl).quantize(Decimal('0.01'), rounding=ROUND_HALF_UP)
  except InvalidOperation:
      total = Decimal('0.00')
  fields['Total'].delete(0, tk.END)
  fields['Total'].insert(0, f"{total}")
  \<close>
  A line of the form is the record of the texts in its nine fields; \<^verbatim>\<open>generate_pdf\<close> copies
  them into a row as they are (lines 991-1003).
\<close>

definition line_total :: "string \<Rightarrow> string \<Rightarrow> exc + decimal" where
  "line_total qty_text price_text =
     (case and_then (money_to_decimal qty_text) (\<lambda>qty.
           and_then (money_to_decimal price_text) (\<lambda>price_incl.
           and_then (dec_mul qty price_incl) quantize_cents)) of
        Inl InvalidOperation \<Rightarrow> Inr (Finite False 0 (- 2))
      | Inl e \<Rightarrow> Inl e
      | Inr tot \<Rightarrow> Inr tot)"

record line_fields =
  Date :: string
  Service :: string
  ICD10_Code :: string
  ICD10_Secondary :: string
  Tariff :: string
  NAPPI :: string
  Qty :: string
  Price :: string
  Total :: string

definition update_total :: "line_fields \<Rightarrow> exc + line_fields" where
  "update_total flds =
     (case line_total (Qty flds) (Price flds) of
        Inl e \<Rightarrow> Inl e
      | Inr tot \<Rightarrow> Inr (flds\<lparr>Total := dec_str tot\<rparr>))"

definition pdf_row :: "line_fields \<Rightarrow> string list" where
  "pdf_row flds = [Date flds, Service flds, ICD10_Code flds, ICD10_Secondary flds, Tariff flds,
                   NAPPI flds, Qty flds, Price flds, Total flds]"

text \<open>
  The accumulation of the gross amount, in \<^verbatim>\<open>recalc_totals\<close> over the Total fields (lines
  851-856) and in \<^verbatim>\<open>generate_pdf\<close> over the last cell of every row (lines 1188-1194 and
  1259-1265):
  \<^verbatim>\<open>
  try:
      gross += money_to_decimal(r[-1])
  except InvalidOperation:
      pass
  \<close>
\<close>

definition add_to_gross :: "decimal \<Rightarrow> string \<Rightarrow> exc + decimal" where
  "add_to_gross gross total_text =
     (case and_then (money_to_decimal total_text) (dec_add gross) of
        Inl InvalidOperation \<Rightarrow> Inr gross
      | Inl e \<Rightarrow> Inl e
      | Inr g \<Rightarrow> Inr g)"

fun sum_totals :: "decimal \<Rightarrow> string list \<Rightarrow> exc + decimal" where
  "sum_totals gross [] = Inr gross"
| "sum_totals gross (t # ts) = and_then (add_to_gross gross t) (\<lambda>g. sum_totals g ts)"

definition last_cell :: "string list \<Rightarrow> exc + string" where
  "last_cell r = (case py_index r (- 1) of Inl e \<Rightarrow> Inl e | Inr k \<Rightarrow> Inr (r ! k))"

fun pdf_gross :: "decimal \<Rightarrow> string list list \<Rightarrow> exc + decimal" where
  "pdf_gross gross [] = Inr gross"
| "pdf_gross gross (r # rs) =
     and_then (last_cell r) (\<lambda>t. and_then (add_to_gross gross t) (\<lambda>g. pdf_gross g rs))"

text \<open>
  The tax computation of \<^verbatim>\<open>recalc_totals\<close> (lines 858-863) and of the landscape branch of
  \<^verbatim>\<open>generate_pdf\<close> (lines 1267-1272); \<open>eq_zero\<close> is the test \<^verbatim>\<open>self.vat_rate == 0\<close>:
  \<^verbatim>\<open>
  if self.vat_rate == 0:
      ex = gross
      vat = Decimal('0.00')
  else:
      ex = (gross / (Decimal(1) + self.vat_rate)).quantize(Decimal('0.01'), rounding=ROUND_HALF_UP)
      vat = (gross - ex).quantize(Decimal('0.01'), rounding=ROUND_HALF_UP)
  \<close>
\<close>

fun eq_zero :: "decimal \<Rightarrow> exc + bool" where
  "eq_zero (SNaN s p) = Inl InvalidOperation"
| "eq_zero (Finite s c e) = Inr (c = 0)"
| "eq_zero d = Inr False"

definition tax_split :: "decimal \<Rightarrow> decimal \<Rightarrow> exc + decimal \<times> decimal" where
  "tax_split gross vat_rate =
     and_then (eq_zero vat_rate) (\<lambda>z.
       if z then Inr (gross, Finite False 0 (- 2))
       else
         and_then (dec_add (Finite False 1 0) vat_rate) (\<lambda>d.
         and_then (dec_div gross d) (\<lambda>q.
         and_then (quantize_cents q) (\<lambda>ex.
         and_then (dec_sub gross ex) (\<lambda>df.
         and_then (quantize_cents df) (\<lambda>vat. Inr (ex, vat)))))))"

text \<open>
  The value of a finite decimal as a rational number, and rounding a rational amount half-up
  (ties away from zero) to whole cents, in the specification's words. \<open>cents_coeff\<close> is the
  coefficient that \<^verbatim>\<open>quantize\<close> gives a coefficient and exponent at the exponent -2.
\<close>

definition cents_coeff :: "nat \<Rightarrow> int \<Rightarrow> nat" where
  "cents_coeff c e = (if e \<ge> - 2 then c * 10 ^ nat (e + 2) else round_half_up c (nat (- 2 - e)))"

definition scale10 :: "int \<Rightarrow> rat" where
  "scale10 e = (if e \<ge> 0 then 10 ^ nat e else 1 / 10 ^ nat (- e))"

fun dec_value :: "decimal \<Rightarrow> rat" where
  "dec_value (Finite s c e) = (if s then - 1 else 1) * of_nat c * scale10 e"
| "dec_value d = 0"

definition half_up_cents :: "rat \<Rightarrow> int" where
  "half_up_cents x = (if x < 0 then - \<lfloor>- x * 100 + 1 / 2\<rfloor> else \<lfloor>x * 100 + 1 / 2\<rfloor>)"

text \<open>The set of list positions a list of Python indices denotes.\<close>

definition index_set :: "'a list \<Rightarrow> int list \<Rightarrow> nat set" where
  "index_set xs ds = {k. \<exists>d \<in> set ds. py_index xs d = Inr k}"

subsection \<open>Facts about the donor loop\<close>

lemma py_index_less: "py_index xs i = Inr k \<Longrightarrow> k < length xs"
  by (auto simp: py_index_def Let_def split: if_splits)

lemma py_index_length_cong: "length xs = length ys \<Longrightarrow> py_index xs i = py_index ys i"
  by (simp add: py_index_def)

lemma index_set_length_cong: "length xs = length ys \<Longrightarrow> index_set xs ds = index_set ys ds"
  by (simp add: index_set_def py_index_length_cong [of xs ys])

lemma index_set_Cons: "index_set xs (d # ds) = {k. py_index xs d = Inr k} \<union> index_set xs ds"
  by (auto simp: index_set_def)

lemma donate_length: "donate ws ds m deficit = Inr ws' \<Longrightarrow> length ws' = length ws"
proof (induction ds arbitrary: ws deficit)
  case Nil
  then show ?case by simp
next
  case (Cons d ds)
  then show ?case
    by (fastforce simp: Let_def split: sum.splits if_splits)
qed

lemma donate_frame:
  "donate ws ds m deficit = Inr ws' \<Longrightarrow> k \<notin> index_set ws ds \<Longrightarrow> ws' ! k = ws ! k"
proof (induction ds arbitrary: ws deficit)
  case Nil
  then show ?case by simp
next
  case (Cons d ds)
  from Cons.prems obtain j where j: "py_index ws d = Inr j"
    by (auto split: sum.splits)
  with Cons.prems(2) have kj: "k \<noteq> j" and kds: "k \<notin> index_set ws ds"
    by (auto simp: index_set_Cons)
  let ?spare = "max (ws ! j - m) 0"
  let ?take = "min ?spare deficit"
  let ?ws1 = "ws[j := ws ! j - ?take]"
  show ?case
  proof (cases "?spare \<le> 0")
    case True
    with Cons.prems(1) j have "donate ws ds m deficit = Inr ws'"
      by (simp add: Let_def)
    from Cons.IH [OF this kds] show ?thesis .
  next
    case False
    show ?thesis
    proof (cases "deficit - ?take \<le> 0")
      case True
      with False Cons.prems(1) j have "ws' = ?ws1"
        by (simp add: Let_def)
      with kj show ?thesis by simp
    next
      case nd: False
      with False Cons.prems(1) j have rec: "donate ?ws1 ds m (deficit - ?take) = Inr ws'"
        by (simp add: Let_def)
      have "index_set ?ws1 ds = index_set ws ds"
        by (rule index_set_length_cong) simp
      with kds have "k \<notin> index_set ?ws1 ds" by simp
      from Cons.IH [OF rec this] kj show ?thesis by simp
    qed
  qed
qed

lemma donate_bounds:
  "donate ws ds m deficit = Inr ws' \<Longrightarrow> 0 \<le> deficit \<Longrightarrow> k < length ws \<Longrightarrow>
     ws' ! k \<le> ws ! k \<and> min (ws ! k) m \<le> ws' ! k"
proof (induction ds arbitrary: ws deficit)
  case Nil
  then show ?case by simp
next
  case (Cons d ds)
  from Cons.prems obtain j where j: "py_index ws d = Inr j"
    by (auto split: sum.splits)
  then have jlen: "j < length ws" by (rule py_index_less)
  let ?spare = "max (ws ! j - m) 0"
  let ?take = "min ?spare deficit"
  let ?ws1 = "ws[j := ws ! j - ?take]"
  have step: "?ws1 ! k \<le> ws ! k \<and> min (ws ! k) m \<le> ?ws1 ! k"
    using Cons.prems(2) jlen by (cases "k = j") auto
  show ?case
  proof (cases "?spare \<le> 0")
    case True
    with Cons.prems(1) j have "donate ws ds m deficit = Inr ws'"
      by (simp add: Let_def)
    from Cons.IH [OF this Cons.prems(2) Cons.prems(3)] show ?thesis .
  next
    case False
    show ?thesis
    proof (cases "deficit - ?take \<le> 0")
      case True
      with False Cons.prems(1) j have "ws' = ?ws1"
        by (simp add: Let_def)
      with step show ?thesis by simp
    next
      case nd: False
      with False Cons.prems(1) j have rec: "donate ?ws1 ds m (deficit - ?take) = Inr ws'"
        by (simp add: Let_def)
      have d0: "0 \<le> deficit - ?take" using nd by simp
      have kl: "k < length ?ws1" using Cons.prems(3) by simp
      from Cons.IH [OF rec d0 kl] step show ?thesis by linarith
    qed
  qed
qed

subsection \<open>Facts about \<open>ensure_min_col_width\<close>\<close>

lemma ensure_length:
  "ensure_min_col_width gsw ws t ss ds m fs pad = Inr ws' \<Longrightarrow> length ws' = length ws"
  by (auto simp: ensure_min_col_width_def split: sum.splits if_splits dest: donate_length)

lemma ensure_target_ge:
  assumes "ensure_min_col_width gsw ws t ss ds m fs pad = Inr ws'"
    and "need_width gsw fs ss pad = Inr need"
    and "py_index ws t = Inr k"
  shows "need \<le> ws' ! k"
proof (cases "need \<le> ws ! k")
  case True
  with assms show ?thesis by (simp add: ensure_min_col_width_def)
next
  case False
  with assms obtain ws1 where d: "donate ws ds m (need - ws ! k) = Inr ws1"
    and r: "ws' = ws1[k := max (ws1 ! k) need]"
    by (auto simp: ensure_min_col_width_def split: sum.splits)
  from assms(3) have "k < length ws" by (rule py_index_less)
  with donate_length [OF d] have "k < length ws1" by simp
  with r show ?thesis by simp
qed

lemma ensure_other_ge:
  assumes "ensure_min_col_width gsw ws t ss ds m fs pad = Inr ws'"
    and "py_index ws t = Inr k"
    and "j \<notin> index_set ws ds" and "j \<noteq> k"
  shows "ws' ! j = ws ! j"
proof -
  from assms(1) obtain need where n: "need_width gsw fs ss pad = Inr need"
    by (auto simp: ensure_min_col_width_def split: sum.splits)
  show ?thesis
  proof (cases "need \<le> ws ! k")
    case True
    with assms n show ?thesis by (simp add: ensure_min_col_width_def)
  next
    case False
    with assms n obtain ws1 where d: "donate ws ds m (need - ws ! k) = Inr ws1"
      and r: "ws' = ws1[k := max (ws1 ! k) need]"
      by (auto simp: ensure_min_col_width_def split: sum.splits)
    from donate_frame [OF d assms(3)] r assms(4) show ?thesis by simp
  qed
qed

section \<open>Claims about the allocator\<close>

text \<open>
  \<^bold>\<open>C8\<close> (allocator idempotence). Whenever \<^verbatim>\<open>ensure_min_col_width\<close> returns a width list,
  calling it again on that list with the same target column, sample texts, donors, donor
  floor, font size and padding returns exactly that list. (Determinism is built in: the
  embedding is a function of these inputs only.)
\<close>

theorem ensure_min_col_width_idempotent:
  assumes "ensure_min_col_width gsw ws t ss ds m fs pad = Inr ws'"
  shows "ensure_min_col_width gsw ws' t ss ds m fs pad = Inr ws'"
proof -
  from assms obtain need k where n: "need_width gsw fs ss pad = Inr need"
    and k: "py_index ws t = Inr k"
    by (auto simp: ensure_min_col_width_def split: sum.splits)
  have len: "length ws' = length ws" using assms by (rule ensure_length)
  have k': "py_index ws' t = Inr k"
    using k py_index_length_cong [OF len, of t] by simp
  have "need \<le> ws' ! k" using assms n k by (rule ensure_target_ge)
  with n k' show ?thesis by (simp add: ensure_min_col_width_def)
qed

theorem ensure_min_col_width_idempotent_witness:
  "ensure_min_col_width (\<lambda>fs s. real (length s) * fs / 5) [10, 30, 20, 16, 15, 12] 5 [''0000000000'']
      [2, 3, 1, 4] 14 8 3 = Inr [10, 30, 14, 15, 15, 19]
   \<and> ensure_min_col_width (\<lambda>fs s. real (length s) * fs / 5) [10, 30, 14, 15, 15, 19] 5 [''0000000000'']
      [2, 3, 1, 4] 14 8 3 = Inr [10, 30, 14, 15, 15, 19]"
proof -
  have a: "ensure_min_col_width (\<lambda>fs s. real (length s) * fs / 5) [10, 30, 20, 16, 15, 12] 5
      [''0000000000''] [2, 3, 1, 4] 14 8 3 = Inr [10, 30, 14, 15, 15, 19]"
    by (simp add: ensure_min_col_width_def need_width_def py_index_def Let_def)
  from a ensure_min_col_width_idempotent [OF a] show ?thesis by simp
qed

lemma py_index_nonneg: "py_index xs d = Inr k \<Longrightarrow> 0 \<le> d \<Longrightarrow> k = nat d"
  by (auto simp: py_index_def Let_def split: if_splits)

lemma py_index_in_range: "0 \<le> d \<Longrightarrow> nat d < length xs \<Longrightarrow> py_index xs d = Inr (nat d)"
  by (auto simp: py_index_def Let_def)

lemma donate_total:
  "(\<forall>d \<in> set ds. 0 \<le> d \<and> nat d < length ws) \<Longrightarrow> \<exists>ws'. donate ws ds m deficit = Inr ws'"
proof (induction ds arbitrary: ws deficit)
  case Nil
  then show ?case by simp
next
  case (Cons d ds)
  then have d: "py_index ws d = Inr (nat d)" by (simp add: py_index_in_range)
  have rest: "\<exists>ws'. donate ws1 ds m deficit1 = Inr ws'" if "length ws1 = length ws" for ws1 deficit1
    using Cons.IH [of ws1 deficit1] Cons.prems that by simp
  show ?case
    by (auto simp: Let_def d intro!: rest)
qed

lemma need_width_total: "ss \<noteq> [] \<Longrightarrow> \<exists>need. need_width gsw fs ss pad = Inr need"
  by (cases ss) (simp_all add: need_width_def)

lemma ensure_total:
  assumes "ss \<noteq> []" "0 \<le> t" "nat t < length ws" "\<forall>d \<in> set ds. 0 \<le> d \<and> nat d < length ws"
  shows "\<exists>ws'. ensure_min_col_width gsw ws t ss ds m fs pad = Inr ws'"
proof -
  from need_width_total [OF assms(1)] obtain need where n: "need_width gsw fs ss pad = Inr need" by blast
  from assms(2,3) have t: "py_index ws t = Inr (nat t)" by (rule py_index_in_range)
  from donate_total [OF assms(4)] obtain ws1
    where "donate ws ds m (need - ws ! nat t) = Inr ws1" by blast
  with n t show ?thesis by (simp add: ensure_min_col_width_def)
qed

lemma fold_max_ge: "(a::real) \<le> fold max xs a"
proof (induction xs arbitrary: a)
  case Nil
  then show ?case by simp
next
  case (Cons x xs)
  have "a \<le> max x a" by simp
  also have "\<dots> \<le> fold max xs (max x a)" by (rule Cons.IH)
  finally show ?case by simp
qed

lemma index_set_donors: "k \<in> index_set ws donors_portrait \<Longrightarrow> k \<in> {1, 2, 3, 4}"
  by (auto simp: index_set_def donors_portrait_def dest!: py_index_nonneg)

lemma protect_columns_length:
  "protect_columns gsw ws fs = Inr ws' \<Longrightarrow> length ws' = length ws"
  by (auto simp: protect_columns_def split: sum.splits dest!: ensure_length)

lemma protect_columns_ok:
  assumes "protect_columns gsw ws fs = Inr ws'"
  shows "protected_ok gsw fs ws'"
proof -
  from assms obtain ws1 where
    e1: "ensure_min_col_width gsw ws NAPPI_COL [''0000000000''] donors_portrait 14.0 fs 3.0 = Inr ws1"
    and e2: "ensure_min_col_width gsw ws1 UNIT_PRICE_COL [''R0000000.00'', ''0000000.00'']
               donors_portrait 14.0 fs 3.0 = Inr ws'"
    by (auto simp: protect_columns_def split: sum.splits)
  from e1 obtain k1 where k1: "py_index ws NAPPI_COL = Inr k1"
    by (auto simp: ensure_min_col_width_def split: sum.splits)
  then have k1': "k1 = 5" by (auto dest!: py_index_nonneg simp: NAPPI_COL_def)
  from e2 obtain k2 where k2: "py_index ws1 UNIT_PRICE_COL = Inr k2"
    by (auto simp: ensure_min_col_width_def split: sum.splits)
  then have k2': "k2 = 7" by (auto dest!: py_index_nonneg simp: UNIT_PRICE_COL_def)
  have n1: "need_width gsw fs [''0000000000''] 3.0 = Inr (gsw fs ''0000000000'' + 3.0)"
    by (simp add: need_width_def)
  have n2: "need_width gsw fs [''R0000000.00'', ''0000000.00''] 3.0
      = Inr (max (gsw fs ''0000000.00'') (gsw fs ''R0000000.00'') + 3.0)"
    by (simp add: need_width_def)
  from ensure_target_ge [OF e1 n1 k1] k1' have a: "gsw fs ''0000000000'' + 3.0 \<le> ws1 ! 5" by simp
  have "5 \<notin> index_set ws1 donors_portrait" using index_set_donors [of 5 ws1] by auto
  from ensure_other_ge [OF e2 k2 this] k2' have "ws' ! 5 = ws1 ! 5" by simp
  moreover from ensure_target_ge [OF e2 n2 k2] k2'
  have "max (gsw fs ''0000000.00'') (gsw fs ''R0000000.00'') + 3.0 \<le> ws' ! 7" by simp
  ultimately show ?thesis using a by (simp add: protected_ok_def)
qed

lemma protect_columns_total:
  assumes "length ws = 9"
  shows "\<exists>ws'. protect_columns gsw ws fs = Inr ws'"
proof -
  have d: "\<forall>d \<in> set donors_portrait. 0 \<le> d \<and> nat d < length xs" if "length xs = 9" for xs :: "real list"
    using that by (simp add: donors_portrait_def)
  have "\<exists>ws1. ensure_min_col_width gsw ws NAPPI_COL [''0000000000''] donors_portrait 14.0 fs 3.0 = Inr ws1"
    by (rule ensure_total) (use assms d [OF assms] in \<open>simp_all add: NAPPI_COL_def\<close>)
  then obtain ws1 where
    e1: "ensure_min_col_width gsw ws NAPPI_COL [''0000000000''] donors_portrait 14.0 fs 3.0 = Inr ws1"
    by blast
  then have l1: "length ws1 = 9" using assms by (auto dest: ensure_length)
  have "\<exists>ws2. ensure_min_col_width gsw ws1 UNIT_PRICE_COL [''R0000000.00'', ''0000000.00'']
               donors_portrait 14.0 fs 3.0 = Inr ws2"
    by (rule ensure_total) (use l1 d [OF l1] in \<open>simp_all add: UNIT_PRICE_COL_def\<close>)
  then obtain ws2 where
    "ensure_min_col_width gsw ws1 UNIT_PRICE_COL [''R0000000.00'', ''0000000.00'']
               donors_portrait 14.0 fs 3.0 = Inr ws2"
    by blast
  with e1 show ?thesis by (simp add: protect_columns_def)
qed

text \<open>
  \<^bold>\<open>C10\<close> (frame property of the allocator). A successful call of \<^verbatim>\<open>ensure_min_col_width\<close>
  keeps the number of columns; the target column ends at the maximum of its old width and
  the required width; every other column never grows and never falls below the smaller of
  its old width and the donor floor; a column that is neither the target nor a listed donor
  is unchanged, and so is a column that is already at or below the donor floor.
\<close>

theorem ensure_min_col_width_frame:
  assumes "ensure_min_col_width gsw ws t ss ds m fs pad = Inr ws'"
    and "py_index ws t = Inr k"
    and "need_width gsw fs ss pad = Inr need"
  shows "length ws' = length ws
     \<and> ws' ! k = max (ws ! k) need
     \<and> (\<forall>i < length ws. i \<noteq> k \<longrightarrow>
          ws' ! i \<le> ws ! i
          \<and> min (ws ! i) m \<le> ws' ! i
          \<and> (i \<notin> index_set ws ds \<longrightarrow> ws' ! i = ws ! i)
          \<and> (ws ! i \<le> m \<longrightarrow> ws' ! i = ws ! i))"
proof (cases "need \<le> ws ! k")
  case True
  with assms have "ws' = ws" by (simp add: ensure_min_col_width_def)
  with True show ?thesis by auto
next
  case False
  with assms obtain ws1 where d: "donate ws ds m (need - ws ! k) = Inr ws1"
    and r: "ws' = ws1[k := max (ws1 ! k) need]"
    by (auto simp: ensure_min_col_width_def split: sum.splits)
  from assms(2) have kl: "k < length ws" by (rule py_index_less)
  have len: "length ws1 = length ws" using d by (rule donate_length)
  have def0: "0 \<le> need - ws ! k" using False by simp
  have "ws1 ! k \<le> ws ! k" using donate_bounds [OF d def0 kl] by simp
  with False r kl len have tgt: "ws' ! k = max (ws ! k) need" by simp
  have others: "ws' ! i \<le> ws ! i \<and> min (ws ! i) m \<le> ws' ! i
          \<and> (i \<notin> index_set ws ds \<longrightarrow> ws' ! i = ws ! i)
          \<and> (ws ! i \<le> m \<longrightarrow> ws' ! i = ws ! i)" if "i < length ws" "i \<noteq> k" for i
  proof -
    from r that have e: "ws' ! i = ws1 ! i" by simp
    from donate_bounds [OF d def0 that(1)] have b: "ws1 ! i \<le> ws ! i" "min (ws ! i) m \<le> ws1 ! i"
      by simp_all
    have "i \<notin> index_set ws ds \<longrightarrow> ws1 ! i = ws ! i" using donate_frame [OF d] by blast
    moreover have "ws ! i \<le> m \<longrightarrow> ws1 ! i = ws ! i" using b by auto
    ultimately show ?thesis using e b by simp
  qed
  from len r tgt others show ?thesis by simp
qed

theorem ensure_min_col_width_frame_witness:
  "ensure_min_col_width (\<lambda>fs s. real (length s) * fs / 5) [10, 30, 20, 16, 15, 12] 5 [''0000000000'']
      [2, 3, 1, 4] 14 8 3 = Inr [10, 30, 14, 15, 15, 19]
   \<and> [10, 30, 14, 15, 15, 19 :: real] ! 5 = max ([10, 30, 20, 16, 15, 12] ! 5) 19
   \<and> [10, 30, 14, 15, 15, 19 :: real] ! 2 \<le> [10, 30, 20, 16, 15, 12] ! 2
   \<and> [10, 30, 14, 15, 15, 19 :: real] ! 0 = [10, 30, 20, 16, 15, 12] ! 0"
proof -
  let ?g = "\<lambda>fs s. real (length s) * fs / 5"
  have a: "ensure_min_col_width ?g [10, 30, 20, 16, 15, 12] 5
      [''0000000000''] [2, 3, 1, 4] 14 8 3 = Inr [10, 30, 14, 15, 15, 19]"
    by (simp add: ensure_min_col_width_def need_width_def py_index_def Let_def)
  have b: "py_index [10, 30, 20, 16, 15, 12 :: real] 5 = Inr 5"
    by (simp add: py_index_def)
  have c: "need_width ?g 8 [''0000000000''] 3 = Inr 19"
    by (simp add: need_width_def)
  from ensure_min_col_width_frame [OF a b c] a show ?thesis by simp
qed

section \<open>The auto-fit loop\<close>

lemma cell_heights_total:
  "4 \<le> length widths \<Longrightarrow> \<exists>hs. cell_heights gsw widths base_h fsize idx row = Inr hs"
proof (induction row arbitrary: idx)
  case Nil
  then show ?case by simp
next
  case (Cons cell row)
  from Cons.IH [OF Cons.prems, of "Suc idx"] obtain hs
    where "cell_heights gsw widths base_h fsize (Suc idx) row = Inr hs" by blast
  moreover have "idx \<in> WRAP_COLS \<Longrightarrow> idx < length widths"
    using Cons.prems by (auto simp: WRAP_COLS_def)
  ultimately show ?case by simp
qed

lemma rows_height_total:
  "4 \<le> length widths \<Longrightarrow> \<exists>h'. rows_height gsw widths base_h fsize h rows = Inr h'"
proof (induction rows arbitrary: h)
  case Nil
  then show ?case by simp
next
  case (Cons r rows)
  from cell_heights_total [OF Cons.prems, of gsw base_h fsize 0 r] obtain hs
    where "cell_heights gsw widths base_h fsize 0 r = Inr hs" by blast
  with Cons.IH [OF Cons.prems] show ?case by simp
qed

lemma overflows_total: "length (col_w st) = 9 \<Longrightarrow> \<exists>b. overflows env st = Inr b"
proof -
  assume "length (col_w st) = 9"
  then have "4 \<le> length (col_w st)" by simp
  from rows_height_total [OF this, of "env_gsw env" "row_h st" "table_font st" "env_header_h env" "env_rows env"]
  obtain h where "rows_height (env_gsw env) (col_w st) (row_h st) (table_font st) (env_header_h env) (env_rows env) = Inr h"
    by blast
  then show ?thesis
    by (simp add: overflows_def table_total_height_def)
qed

lemma reprotect_fields:
  "reprotect env s = Inr (Some s') \<Longrightarrow>
     table_font s' = table_font s \<and> row_h s' = row_h s \<and> l_margin s' = l_margin s
     \<and> r_margin s' = r_margin s \<and> length (col_w s') = length (col_w s)
     \<and> protected_ok (env_gsw env) (table_font s') (col_w s')"
  by (auto simp: reprotect_def split: sum.splits
      dest: protect_columns_length protect_columns_ok)

lemma reprotect_total:
  "length (col_w s) = 9 \<Longrightarrow> \<exists>s'. reprotect env s = Inr (Some s')"
  using protect_columns_total [of "col_w s" "env_gsw env" "table_font s"]
  by (auto simp: reprotect_def)

lemma length_weighted_widths: "length (weighted_widths a) = 9"
  by (simp add: weighted_widths_def weights_portrait_def)

text \<open>What one run of the body does to the state.\<close>

lemma shrink_body_Some:
  assumes "shrink_body env st = Inr (Some st')"
  shows "table_font st' = (if table_font st > env_min_font env then table_font st - 0.2 else table_font st)"
    and "row_h st' = (if row_h st > min_row_h then row_h st - 0.08 else row_h st)"
    and "l_margin st' = (if table_font st > env_min_font env \<or> row_h st > min_row_h then l_margin st
                         else max (l_margin st - 1) 6)"
    and "r_margin st' = (if table_font st > env_min_font env \<or> row_h st > min_row_h then r_margin st
                         else max (r_margin st - 1) 6)"
    and "\<not> table_font st > env_min_font env \<Longrightarrow> \<not> row_h st > min_row_h \<Longrightarrow>
           l_margin st > 6 \<or> r_margin st > 6"
    and "length (col_w st') = 9 \<or> length (col_w st') = length (col_w st)"
    and "protected_ok (env_gsw env) (table_font st') (col_w st')"
proof -
  let ?f = "table_font st > env_min_font env"
  let ?r = "row_h st > min_row_h"
  let ?s1 = "if ?f then st\<lparr>table_font := table_font st - 0.2\<rparr> else st"
  let ?s2 = "if ?r then ?s1\<lparr>row_h := row_h st - 0.08\<rparr> else ?s1"
  have all: "table_font st' = (if ?f then table_font st - 0.2 else table_font st)
    \<and> row_h st' = (if ?r then row_h st - 0.08 else row_h st)
    \<and> l_margin st' = (if ?f \<or> ?r then l_margin st else max (l_margin st - 1) 6)
    \<and> r_margin st' = (if ?f \<or> ?r then r_margin st else max (r_margin st - 1) 6)
    \<and> (\<not> ?f \<longrightarrow> \<not> ?r \<longrightarrow> l_margin st > 6 \<or> r_margin st > 6)
    \<and> (length (col_w st') = 9 \<or> length (col_w st') = length (col_w st))
    \<and> protected_ok (env_gsw env) (table_font st') (col_w st')"
  proof (cases "?f \<or> ?r")
    case True
    with assms have "reprotect env ?s2 = Inr (Some st')"
      by (auto simp: shrink_body_def Let_def split: if_splits)
    from reprotect_fields [OF this] True show ?thesis
      by (auto split: if_splits)
  next
    case False
    let ?s3 = "st\<lparr>l_margin := max (l_margin st - 1) 6, r_margin := max (r_margin st - 1) 6\<rparr>"
    from assms False have m: "l_margin st > 6 \<or> r_margin st > 6"
      by (auto simp: shrink_body_def Let_def split: if_splits)
    with assms False obtain cw where
      p: "protect_columns (env_gsw env)
            (weighted_widths (env_page_w env - max (l_margin st - 1) 6 - max (r_margin st - 1) 6))
            (table_font st) = Inr cw"
      and "reprotect env (?s3\<lparr>col_w := cw\<rparr>) = Inr (Some st')"
      by (auto simp: shrink_body_def Let_def split: if_splits sum.splits)
    from reprotect_fields [OF this(2)] protect_columns_length [OF p] False m show ?thesis
      by (auto simp: length_weighted_widths)
  qed
  from all show "table_font st' = (if ?f then table_font st - 0.2 else table_font st)" by blast
  from all show "row_h st' = (if ?r then row_h st - 0.08 else row_h st)" by blast
  from all show "l_margin st' = (if ?f \<or> ?r then l_margin st else max (l_margin st - 1) 6)" by blast
  from all show "r_margin st' = (if ?f \<or> ?r then r_margin st else max (r_margin st - 1) 6)" by blast
  from all show "\<not> ?f \<Longrightarrow> \<not> ?r \<Longrightarrow> l_margin st > 6 \<or> r_margin st > 6" by blast
  from all show "length (col_w st') = 9 \<or> length (col_w st') = length (col_w st)" by blast
  from all show "protected_ok (env_gsw env) (table_font st') (col_w st')" by blast
qed

lemma shrink_body_None:
  "shrink_body env st = Inr None \<Longrightarrow>
     \<not> table_font st > env_min_font env \<and> \<not> row_h st > min_row_h
     \<and> \<not> l_margin st > 6 \<and> \<not> r_margin st > 6"
  by (auto simp: shrink_body_def Let_def reprotect_def split: if_splits sum.splits)

lemma shrink_body_total:
  assumes "length (col_w st) = 9"
  shows "\<exists>r. shrink_body env st = Inr r"
proof -
  let ?f = "table_font st > env_min_font env"
  let ?r = "row_h st > min_row_h"
  let ?s1 = "if ?f then st\<lparr>table_font := table_font st - 0.2\<rparr> else st"
  let ?s2 = "if ?r then ?s1\<lparr>row_h := row_h st - 0.08\<rparr> else ?s1"
  show ?thesis
  proof (cases "?f \<or> ?r")
    case True
    have "length (col_w ?s2) = 9" using assms by simp
    from reprotect_total [OF this, of env] obtain s' where "reprotect env ?s2 = Inr (Some s')" by blast
    with True show ?thesis by (auto simp: shrink_body_def Let_def split: if_splits)
  next
    case False
    show ?thesis
    proof (cases "l_margin st > 6 \<or> r_margin st > 6")
      case m: True
      let ?s3 = "st\<lparr>l_margin := max (l_margin st - 1) 6, r_margin := max (r_margin st - 1) 6\<rparr>"
      let ?a = "env_page_w env - max (l_margin st - 1) 6 - max (r_margin st - 1) 6"
      from protect_columns_total [OF length_weighted_widths, of "env_gsw env" ?a "table_font st"]
      obtain cw where p: "protect_columns (env_gsw env) (weighted_widths ?a) (table_font st) = Inr cw"
        by blast
      from protect_columns_length [OF p] have "length (col_w (?s3\<lparr>col_w := cw\<rparr>)) = 9"
        by (simp add: length_weighted_widths)
      from reprotect_total [OF this, of env] obtain s'
        where "reprotect env (?s3\<lparr>col_w := cw\<rparr>) = Inr (Some s')" by blast
      with False m p show ?thesis by (simp add: shrink_body_def Let_def)
    next
      case m: False
      with False show ?thesis by (simp add: shrink_body_def Let_def)
    qed
  qed
qed

lemma steps_dec: "0 < x \<Longrightarrow> nat \<lceil>x - 1\<rceil> < nat \<lceil>x\<rceil>" for x :: real
proof -
  assume "0 < x"
  then have "0 < \<lceil>x\<rceil>" by simp
  moreover have "\<lceil>x - 1\<rceil> = \<lceil>x\<rceil> - 1" by simp
  ultimately show ?thesis by simp
qed

lemma shrink_body_steps:
  assumes "shrink_body env st = Inr (Some st')"
  shows "steps_left env st' < steps_left env st"
proof -
  note b = shrink_body_Some [OF assms]
  let ?f = "table_font st > env_min_font env"
  let ?r = "row_h st > min_row_h"
  have fs: "font_steps env st' < font_steps env st" if ?f
  proof -
    have e: "(table_font st' - env_min_font env) / 0.2 = (table_font st - env_min_font env) / 0.2 - 1"
      using b(1) that by (simp add: field_simps)
    show ?thesis unfolding font_steps_def e by (rule steps_dec) (use that in simp)
  qed
  have fs': "font_steps env st' = font_steps env st" if "\<not> ?f"
    using b(1) that by (simp add: font_steps_def)
  have rs: "row_steps st' < row_steps st" if ?r
  proof -
    have e: "(row_h st' - min_row_h) / 0.08 = (row_h st - min_row_h) / 0.08 - 1"
      using b(2) that by (simp add: field_simps)
    show ?thesis unfolding row_steps_def e by (rule steps_dec) (use that in simp)
  qed
  have rs': "row_steps st' = row_steps st" if "\<not> ?r"
    using b(2) that by (simp add: row_steps_def)
  have ms': "margin_steps st' = margin_steps st" if "?f \<or> ?r"
    using b(3,4) that by (simp add: margin_steps_def)
  have ms: "margin_steps st' < margin_steps st" if "\<not> ?f" "\<not> ?r"
  proof -
    let ?M = "max (l_margin st) (r_margin st)"
    from b(5) that have pos: "0 < ?M - 6" by (auto simp: max_def)
    have M': "max (l_margin st') (r_margin st') = max (?M - 1) 6"
      using b(3,4) that by (simp add: max_def)
    have "nat \<lceil>max (?M - 1) 6 - 6\<rceil> \<le> nat \<lceil>?M - 6 - 1\<rceil>"
    proof (cases "?M - 1 \<le> 6")
      case True
      then have "max (?M - 1) 6 - 6 = 0" by simp
      then show ?thesis by simp
    next
      case False
      then have "max (?M - 1) 6 - 6 = ?M - 6 - 1" by (auto simp: max_def)
      then show ?thesis by simp
    qed
    also have "\<dots> < nat \<lceil>?M - 6\<rceil>" using steps_dec [OF pos] .
    finally show ?thesis unfolding margin_steps_def M' .
  qed
  show ?thesis
  proof (cases ?f)
    case True
    then show ?thesis using fs rs rs' ms' by (cases ?r) (simp_all add: steps_left_def)
  next
    case f: False
    then show ?thesis using fs' rs rs' ms ms' by (cases ?r) (simp_all add: steps_left_def)
  qed
qed

lemma shrink_loop_bound:
  "shrink_loop env st = Inr (n, st') \<Longrightarrow> n \<le> steps_left env st + 1"
proof (induction env st arbitrary: n st' rule: shrink_loop.induct)
  case (1 env st)
  from "1.prems" obtain b where ov: "overflows env st = Inr b"
    by (subst (asm) shrink_loop.simps) (auto split: sum.splits)
  show ?case
  proof (cases b)
    case False
    with ov "1.prems" have "n = 0" by (subst (asm) shrink_loop.simps) simp
    then show ?thesis by simp
  next
    case True
    then have bt: "b = True" by simp
    from True ov "1.prems" obtain r where body: "shrink_body env st = Inr r"
      by (subst (asm) shrink_loop.simps) (auto split: sum.splits)
    show ?thesis
    proof (cases r)
      case None
      with True ov body "1.prems" have "n = 1" by (subst (asm) shrink_loop.simps) simp
      then show ?thesis by simp
    next
      case (Some s1)
      with True ov body "1.prems" obtain m where
        rec: "shrink_loop env s1 = Inr (m, st')" and n: "n = Suc m"
        by (subst (asm) shrink_loop.simps) (auto split: sum.splits)
      from "1.IH" [OF ov bt body Some rec] have "m \<le> steps_left env s1 + 1" .
      moreover from shrink_body_steps body Some have "steps_left env s1 < steps_left env st" by blast
      ultimately show ?thesis using n by simp
    qed
  qed
qed

lemma shrink_loop_total:
  "length (col_w st) = 9 \<Longrightarrow> \<exists>n st'. shrink_loop env st = Inr (n, st')"
proof (induction env st rule: shrink_loop.induct)
  case (1 env st)
  from overflows_total [OF "1.prems"] obtain b where ov: "overflows env st = Inr b" by blast
  show ?case
  proof (cases b)
    case False
    with ov show ?thesis by (subst shrink_loop.simps) simp
  next
    case True
    then have bt: "b = True" by simp
    from shrink_body_total [OF "1.prems"] obtain r where body: "shrink_body env st = Inr r" by blast
    show ?thesis
    proof (cases r)
      case None
      with True ov body show ?thesis by (subst shrink_loop.simps) simp
    next
      case (Some s1)
      from shrink_body_Some(6) [of env st s1] body Some "1.prems" have "length (col_w s1) = 9" by auto
      from "1.IH" [OF ov bt body Some this] obtain m s2 where "shrink_loop env s1 = Inr (m, s2)"
        by blast
      with True ov body Some show ?thesis by (subst shrink_loop.simps) simp
    qed
  qed
qed

lemma shrink_loop_protected:
  "shrink_loop env st = Inr (n, st') \<Longrightarrow> protected_ok (env_gsw env) (table_font st) (col_w st) \<Longrightarrow>
     protected_ok (env_gsw env) (table_font st') (col_w st')"
proof (induction env st arbitrary: n st' rule: shrink_loop.induct)
  case (1 env st)
  from "1.prems" obtain b where ov: "overflows env st = Inr b"
    by (subst (asm) shrink_loop.simps) (auto split: sum.splits)
  show ?case
  proof (cases b)
    case False
    with ov "1.prems" have "st' = st" by (subst (asm) shrink_loop.simps) simp
    with "1.prems" show ?thesis by simp
  next
    case True
    then have bt: "b = True" by simp
    from True ov "1.prems" obtain r where body: "shrink_body env st = Inr r"
      by (subst (asm) shrink_loop.simps) (auto split: sum.splits)
    show ?thesis
    proof (cases r)
      case None
      with True ov body "1.prems" have "st' = st" by (subst (asm) shrink_loop.simps) simp
      with "1.prems" show ?thesis by simp
    next
      case (Some s1)
      with True ov body "1.prems" obtain m where
        rec: "shrink_loop env s1 = Inr (m, st')"
        by (subst (asm) shrink_loop.simps) (auto split: sum.splits)
      from shrink_body_Some(7) body Some have "protected_ok (env_gsw env) (table_font s1) (col_w s1)"
        by blast
      from "1.IH" [OF ov bt body Some rec this] show ?thesis .
    qed
  qed
qed


lemmas demo_evals = demo_env_def demo_start_def portrait_env_of_def blank_rows_def sample_gsw_def sample_cw_def
  portrait_init_def protect_columns_def ensure_min_col_width_def need_width_def py_index_def Let_def
  weighted_widths_def weights_portrait_def NAPPI_COL_def UNIT_PRICE_COL_def donors_portrait_def
  shrink_body_def reprotect_def min_row_h_def overflows_def table_total_height_def row_max_def
  WRAP_COLS_def wrapped_height_def numeral_eq_Suc

lemma portrait_init_total: "\<exists>st. portrait_init env is_compact = Inr st \<and> length (col_w st) = 9
    \<and> protected_ok (env_gsw env) (table_font st) (col_w st)"
proof -
  let ?m = "if is_compact then 6 else 10 :: real"
  let ?f = "if \<not> is_compact then 8.2 else 7.8 :: real"
  from protect_columns_total [OF length_weighted_widths, of "env_gsw env" "env_page_w env - ?m - ?m" ?f]
  obtain cw where p: "protect_columns (env_gsw env) (weighted_widths (env_page_w env - ?m - ?m)) ?f = Inr cw"
    by blast
  from protect_columns_length [OF p] protect_columns_ok [OF p] p show ?thesis
    by (simp add: portrait_init_def Let_def length_weighted_widths)
qed

text \<open>
  \<^bold>\<open>C3\<close> (protected-column guarantee). For every nine-column width list and every font size
  the allocation returns, and in its result the product-code column (index 5) is at least
  as wide as \<open>0000000000\<close> plus the 3 mm of padding and the unit-price column (index 7) at
  least as wide as \<open>R0000000.00\<close> plus the padding, both measured at that font size. The
  portrait layout as a whole (first allocation, then the auto-fit loop with its re-runs of
  the allocation) always returns, and its final widths satisfy the same guarantee at the
  final font size. The guarantee does not depend on what the donors have left.
\<close>

theorem protected_columns_guarantee:
  "(length ws = 9 \<longrightarrow> (\<exists>ws'. protect_columns gsw ws font = Inr ws' \<and> protected_ok gsw font ws'))
   \<and> (\<exists>n st. portrait_fit env is_compact = Inr (n, st)
          \<and> protected_ok (env_gsw env) (table_font st) (col_w st))"
proof
  show "length ws = 9 \<longrightarrow> (\<exists>ws'. protect_columns gsw ws font = Inr ws' \<and> protected_ok gsw font ws')"
    using protect_columns_total [of ws gsw font] protect_columns_ok [of gsw ws font] by blast
next
  from portrait_init_total [of env is_compact] obtain st0 where
    i: "portrait_init env is_compact = Inr st0" and l: "length (col_w st0) = 9"
    and p: "protected_ok (env_gsw env) (table_font st0) (col_w st0)" by blast
  from shrink_loop_total [OF l, of env] obtain n st where r: "shrink_loop env st0 = Inr (n, st)"
    by blast
  from shrink_loop_protected [OF r p] i r
  show "\<exists>n st. portrait_fit env is_compact = Inr (n, st)
          \<and> protected_ok (env_gsw env) (table_font st) (col_w st)"
    by (simp add: portrait_fit_def)
qed

theorem protected_columns_guarantee_witness:
  "length (weighted_widths 190) = 9
   \<and> (\<exists>ws'. protect_columns sample_gsw (weighted_widths 190) 8.2 = Inr ws'
         \<and> protected_ok sample_gsw 8.2 ws')"
  using protected_columns_guarantee [of "weighted_widths 190" sample_gsw "8.2" "demo_env 6.2" False]
  by (simp add: length_weighted_widths)

text \<open>
  \<^bold>\<open>C2\<close> (what one run of the loop body shrinks), as the code has it. A run of the body on a
  table that does not fit lowers the font size by 0.2 if it is above its floor and, in the
  same run, lowers the row height by 0.08 if it is above its floor. The margins are touched
  only in a run that lowered neither: then each side margin loses 1 mm, down to 6 mm. The
  loop breaks exactly when font size and row height are at their floors and neither side
  margin is above 6 mm.
\<close>

theorem shrink_body_priority:
  assumes "shrink_body env st = Inr r"
  shows "(r = None \<longleftrightarrow>
            \<not> table_font st > env_min_font env \<and> \<not> row_h st > min_row_h
            \<and> \<not> l_margin st > 6 \<and> \<not> r_margin st > 6)
     \<and> (\<forall>st'. r = Some st' \<longrightarrow>
            table_font st' = (if table_font st > env_min_font env then table_font st - 0.2 else table_font st)
          \<and> row_h st' = (if row_h st > min_row_h then row_h st - 0.08 else row_h st)
          \<and> l_margin st' = (if table_font st > env_min_font env \<or> row_h st > min_row_h
                             then l_margin st else max (l_margin st - 1) 6)
          \<and> r_margin st' = (if table_font st > env_min_font env \<or> row_h st > min_row_h
                             then r_margin st else max (r_margin st - 1) 6))"
proof (cases r)
  case None
  with assms shrink_body_None [of env st] show ?thesis by simp
next
  case (Some s1)
  with assms have b: "shrink_body env st = Inr (Some s1)" by simp
  have "table_font st > env_min_font env \<or> row_h st > min_row_h \<or> l_margin st > 6 \<or> r_margin st > 6"
    using shrink_body_Some(5) [OF b] by blast
  with Some shrink_body_Some(1-4) [OF b] show ?thesis by auto
qed

theorem shrink_body_priority_witness:
  "shrink_body (demo_env 6.2) demo_start = Inr (Some (demo_start\<lparr>table_font := 8.0, row_h := 4.32\<rparr>))
   \<and> table_font (demo_start\<lparr>table_font := 8.0, row_h := 4.32\<rparr>) = table_font demo_start - 0.2
   \<and> row_h (demo_start\<lparr>table_font := 8.0, row_h := 4.32\<rparr>) = row_h demo_start - 0.08
   \<and> l_margin (demo_start\<lparr>table_font := 8.0, row_h := 4.32\<rparr>) = l_margin demo_start"
proof -
  have a: "shrink_body (demo_env 6.2) demo_start
      = Inr (Some (demo_start\<lparr>table_font := 8.0, row_h := 4.32\<rparr>))"
    by (simp add: demo_evals)
  have f: "table_font demo_start > env_min_font (demo_env 6.2)" "row_h demo_start > min_row_h"
    by (simp_all add: demo_evals)
  from shrink_body_priority [OF a] f a show ?thesis by simp
qed

theorem shrink_body_font_only_counterexample:
  "overflows (demo_env 6.2) demo_start = Inr True
   \<and> env_min_font (demo_env 6.2) < table_font demo_start
   \<and> row_h demo_start = 4.4
   \<and> map_sum id (map_option row_h) (shrink_body (demo_env 6.2) demo_start) = Inr (Some 4.32)"
  by (simp add: demo_evals)

text \<open>
  \<^bold>\<open>C4\<close> (termination and iteration bound), as the code has it. From every state with nine
  column widths the loop returns, for every row list, and its body runs at most
  \<open>\<lceil>(font - floor)/0.2\<rceil> + \<lceil>(row height - 3.2)/0.08\<rceil> + \<lceil>max(left, right) - 6\<rceil> + 1\<close> times,
  where a negative term counts as zero and the final \<open>1\<close> is the run that ends in
  \<^verbatim>\<open>break\<close>.
\<close>

theorem shrink_loop_terminates_bounded:
  assumes "length (col_w st) = 9"
  shows "\<exists>n st'. shrink_loop env st = Inr (n, st')
           \<and> n \<le> font_steps env st + row_steps st + margin_steps st + 1"
proof -
  from shrink_loop_total [OF assms, of env] obtain n st' where r: "shrink_loop env st = Inr (n, st')"
    by blast
  from shrink_loop_bound [OF r] r show ?thesis by (auto simp: steps_left_def)
qed

theorem shrink_loop_terminates_bounded_witness:
  "length (col_w demo_start) = 9
   \<and> (\<exists>n st'. shrink_loop (demo_env 6.2) demo_start = Inr (n, st') \<and> n \<le> 10 + 15 + 4 + 1)"
proof -
  have l: "length (col_w demo_start) = 9" by (simp add: demo_start_def)
  have "font_steps (demo_env 6.2) demo_start = 10" "row_steps demo_start = 15"
    "margin_steps demo_start = 4"
    by (simp_all add: font_steps_def row_steps_def margin_steps_def demo_evals)
  with shrink_loop_terminates_bounded [OF l, of "demo_env 6.2"] l show ?thesis by simp
qed

theorem shrink_loop_spec_bound_counterexample:
  "portrait_init (demo_env 10) False = Inr demo_start
   \<and> map_sum id fst (shrink_loop (demo_env 10) demo_start) = Inr 20
   \<and> spec_iteration_bound (demo_env 10) demo_start = 10
   \<and> \<not> real 20 \<le> spec_iteration_bound (demo_env 10) demo_start"
proof -
  have a: "portrait_init (demo_env 10) False = Inr demo_start"
    by (simp add: demo_evals)
  have b: "map_sum id fst (shrink_loop (demo_env 10) demo_start) = Inr 20"
    by (simp add: demo_evals shrink_loop.simps)
  have c: "spec_iteration_bound (demo_env 10) demo_start = 10"
    by (simp add: spec_iteration_bound_def demo_evals)
  from a b c show ?thesis by simp
qed


section \<open>Text wrapping: character packing and monotonicity\<close>

lemma char_lines_nonempty: "char_lines width m cur cs \<noteq> []"
  by (induction cs arbitrary: cur) auto

lemma pack_chars_lines:
  "pack_chars width m (n, cur) cs
     = (n + length (char_lines width m cur cs) - 1, last (char_lines width m cur cs))"
proof (induction cs arbitrary: n cur)
  case Nil
  then show ?case by simp
next
  case (Cons ch cs)
  have "0 < length (char_lines width m [ch] cs)"
    using char_lines_nonempty [of width m "[ch]" cs] by simp
  with Cons show ?case by (simp add: Let_def char_lines_nonempty)
qed

lemma concat_char_lines: "concat (char_lines width m cur cs) = cur @ cs"
  by (induction cs arbitrary: cur) auto

lemma char_lines_bounded:
  "width cur \<le> m \<or> length cur \<le> 1 \<Longrightarrow>
     \<forall>l \<in> set (char_lines width m cur cs). width l \<le> m \<or> length l \<le> 1"
proof (induction cs arbitrary: cur)
  case Nil
  then show ?case by simp
next
  case (Cons ch cs)
  show ?case
  proof (cases "width (cur @ [ch]) \<le> m")
    case True
    then have "width (cur @ [ch]) \<le> m \<or> length (cur @ [ch]) \<le> 1" by simp
    from Cons.IH [OF this] True show ?thesis by simp
  next
    case False
    have "width [ch] \<le> m \<or> length [ch] \<le> 1" by simp
    from Cons.IH [OF this] False Cons.prems show ?thesis by simp
  qed
qed

lemma char_lines_single:
  "length (char_lines width m cur cs) = 1 \<Longrightarrow> cs \<noteq> [] \<Longrightarrow> width (cur @ cs) \<le> m"
proof (induction cs arbitrary: cur)
  case Nil
  then show ?case by simp
next
  case (Cons ch cs)
  show ?case
  proof (cases "width (cur @ [ch]) \<le> m")
    case True
    show ?thesis
    proof (cases "cs = []")
      case True
      with \<open>width (cur @ [ch]) \<le> m\<close> show ?thesis by simp
    next
      case False
      from Cons.prems(1) True have "length (char_lines width m (cur @ [ch]) cs) = 1" by simp
      from Cons.IH [OF this False] show ?thesis by simp
    qed
  next
    case False
    with Cons.prems(1) char_lines_nonempty [of width m "[ch]" cs] show ?thesis
      by (cases "char_lines width m [ch] cs") auto
  qed
qed

lemma split_acc_nonempty: "w \<in> set (split_acc cur s) \<Longrightarrow> w \<noteq> []"
  by (induction s arbitrary: cur) (auto split: if_splits)

lemma split_acc_no_space:
  "w \<in> set (split_acc cur s) \<Longrightarrow> \<forall>c \<in> set cur. \<not> is_space c \<Longrightarrow> \<forall>c \<in> set w. \<not> is_space c"
proof (induction s arbitrary: cur)
  case Nil
  then show ?case by (auto split: if_splits)
next
  case (Cons a s)
  have e: "\<forall>c \<in> set ([] :: string). \<not> is_space c" by simp
  show ?case
  proof (cases "is_space a")
    case True
    with Cons.prems(1) have "w = cur \<or> w \<in> set (split_acc [] s)"
      by (auto split: if_splits)
    then show ?thesis
    proof
      assume "w = cur"
      with Cons.prems(2) show ?thesis by simp
    next
      assume "w \<in> set (split_acc [] s)"
      from Cons.IH [OF this e] show ?thesis .
    qed
  next
    case False
    with Cons.prems(1) have m: "w \<in> set (split_acc (cur @ [a]) s)" by simp
    from False Cons.prems(2) have "\<forall>c \<in> set (cur @ [a]). \<not> is_space c" by simp
    from Cons.IH [OF m this] show ?thesis .
  qed
qed

lemma split_ws_Nil [simp]: "split_ws [] = []"
  by (simp add: split_ws_def)

lemma sample_gsw_add: "sample_gsw fs (a @ b) = sample_gsw fs a + sample_gsw fs b"
  by (simp add: sample_gsw_def field_simps)

lemma sample_gsw_nonneg: "0 \<le> fs \<Longrightarrow> 0 \<le> sample_gsw fs a"
proof -
  assume "0 \<le> fs"
  have "0 \<le> sum_list (map sample_cw a)"
    by (rule sum_list_nonneg) (auto simp: sample_cw_def)
  with \<open>0 \<le> fs\<close> show ?thesis by (simp add: sample_gsw_def)
qed

lemmas wrap_evals = wrapped_height_def split_ws_def is_space_def strip_def sample_gsw_def
  sample_cw_def Let_def


text \<open>
  \<^bold>\<open>C7\<close> (character-packing fallback), as the code has it. For a text whose only word is
  wider than the usable column width, \<^verbatim>\<open>wrapped_height\<close> returns the number of lines of the
  character-by-character packing of that word times the line height, plus the vertical
  padding of 0.8. The packing starts on the line that is open when the word begins: when
  already the first character does not fit, that line stays empty and is counted. The count
  is at least two, the lines put together are the word, and every line is within the usable
  width unless it holds no more than one character: a character that alone is wider than
  the usable width gets a line of its own, which then exceeds the width.
\<close>

theorem wrapped_height_char_packing:
  assumes "split_ws str = [w]"
    and "gsw font_size w > max 0.1 (col_width - 1.6)"
  shows "wrapped_height gsw str col_width line_hh font_size
           = real (length (char_lines (gsw font_size) (max 0.1 (col_width - 1.6)) [] w)) * line_hh + 0.8
     \<and> 2 \<le> length (char_lines (gsw font_size) (max 0.1 (col_width - 1.6)) [] w)
     \<and> concat (char_lines (gsw font_size) (max 0.1 (col_width - 1.6)) [] w) = w
     \<and> (\<forall>l \<in> set (char_lines (gsw font_size) (max 0.1 (col_width - 1.6)) [] w).
            gsw font_size l \<le> max 0.1 (col_width - 1.6) \<or> length l \<le> 1)"
proof -
  let ?m = "max 0.1 (col_width - 1.6)"
  let ?L = "char_lines (gsw font_size) ?m [] w"
  from assms(1) have ne: "str \<noteq> []" by auto
  have "w \<in> set (split_acc [] str)" using assms(1) by (simp add: split_ws_def)
  then have wne: "w \<noteq> []" by (rule split_acc_nonempty)
  have pos: "?L \<noteq> []" by (rule char_lines_nonempty)
  have "pack_words (gsw font_size) ?m (1, []) [w] = pack_chars (gsw font_size) ?m (1, []) w"
    using assms(2) by (cases "pack_chars (gsw font_size) ?m (1, []) w") simp
  then have "fst (pack_words (gsw font_size) ?m (1, []) [w]) = length ?L"
    using pos by (cases ?L) (simp_all add: pack_chars_lines)
  then have h: "wrapped_height gsw str col_width line_hh font_size = real (length ?L) * line_hh + 0.8"
    using ne assms(1) by (simp only: wrapped_height_def Let_def) simp
  have two: "2 \<le> length ?L"
  proof (rule ccontr)
    assume "\<not> 2 \<le> length ?L"
    moreover from pos have "length ?L \<noteq> 0" by simp
    ultimately have "length ?L = 1" by arith
    from char_lines_single [OF this wne] assms(2) show False by (simp only: append_Nil)
  qed
  have b: "\<forall>l \<in> set ?L. gsw font_size l \<le> ?m \<or> length l \<le> 1"
    by (rule char_lines_bounded) simp
  from h two b show ?thesis by (simp add: concat_char_lines)
qed

theorem wrapped_height_char_packing_witness:
  "split_ws ''0000000000'' = [''0000000000'']
   \<and> sample_gsw 8.2 ''0000000000'' > max 0.1 (10 - 1.6)
   \<and> char_lines (sample_gsw 8.2) (max 0.1 (10 - 1.6)) [] ''0000000000'' = [''00000'', ''00000'']
   \<and> wrapped_height sample_gsw ''0000000000'' 10 4.4 8.2 = 2 * 4.4 + 0.8"
proof -
  have a: "split_ws ''0000000000'' = [''0000000000'']"
    by (simp add: split_ws_def is_space_def)
  have b: "sample_gsw 8.2 ''0000000000'' > max 0.1 (10 - 1.6)"
    by (simp add: sample_gsw_def sample_cw_def)
  have c: "char_lines (sample_gsw 8.2) (max 0.1 (10 - 1.6)) [] ''0000000000'' = [''00000'', ''00000'']"
    by (simp add: sample_gsw_def sample_cw_def)
  from wrapped_height_char_packing
         [where gsw = sample_gsw and font_size = "8.2" and str = "''0000000000''"
            and w = "''0000000000''" and col_width = 10 and line_hh = "4.4", OF a b]
       a b c
  show ?thesis by simp
qed


theorem wrapped_height_char_packing_counterexample:
  "split_ws ''0'' = [''0'']
   \<and> sample_gsw 8.2 ''0'' > max 0.1 (2 - 1.6)
   \<and> char_lines (sample_gsw 8.2) (max 0.1 (2 - 1.6)) [] ''0'' = [[], ''0'']
   \<and> \<not> sample_gsw 8.2 ''0'' \<le> max 0.1 (2 - 1.6)
   \<and> wrapped_height sample_gsw ''0'' 2 4.4 8.2 = 2 * 4.4 + 0.8"
  by (simp add: wrap_evals)

lemma dropWhile_hd: "s \<noteq> [] \<Longrightarrow> \<not> P (hd s) \<Longrightarrow> dropWhile P s = s"
  by (cases s) simp_all

lemma strip_trimmed: "trimmed s \<Longrightarrow> strip s = s"
proof (cases "s = []")
  case True
  then show ?thesis by (simp add: strip_def)
next
  case False
  assume "trimmed s"
  with False have h: "\<not> is_space (hd s)" and l: "\<not> is_space (last s)"
    by (simp_all add: trimmed_def)
  from False h have a: "dropWhile is_space s = s" by (rule dropWhile_hd)
  from False l have "dropWhile is_space (rev s) = rev s"
    by (intro dropWhile_hd) (simp_all add: hd_rev)
  with a show ?thesis by (simp add: strip_def)
qed

lemma strip_join:
  assumes "trimmed cur" "w \<noteq> []" "trimmed w"
  shows "strip (cur @ '' '' @ w) = (if cur = [] then w else cur @ '' '' @ w)"
proof (cases "cur = []")
  case True
  have "is_space CHR '' ''" by (simp add: is_space_def)
  then have "strip ('' '' @ w) = strip w" by (simp add: strip_def)
  with True strip_trimmed [OF assms(3)] show ?thesis by simp
next
  case False
  with assms have "trimmed (cur @ '' '' @ w)" by (simp add: trimmed_def)
  from strip_trimmed [OF this] False show ?thesis by simp
qed

lemma pack_words_mono:
  assumes add: "\<And>a b. width (a @ b) = width a + width b" and nn: "\<And>a. 0 \<le> width a"
    and m: "mN \<le> mW"
  shows "\<forall>w \<in> set ws. w \<noteq> [] \<and> trimmed w \<and> width w \<le> mN \<Longrightarrow>
     (cW = [] \<longleftrightarrow> cN = []) \<Longrightarrow> trimmed cW \<Longrightarrow> trimmed cN \<Longrightarrow>
     lW < lN \<or> (lW = lN \<and> width cW \<le> width cN) \<Longrightarrow>
     fst (pack_words width mW (lW, cW) ws) \<le> fst (pack_words width mN (lN, cN) ws)"
proof (induction ws arbitrary: lW cW lN cN)
  case Nil
  then show ?case by auto
next
  case (Cons w ws)
  from Cons.prems(1) have w: "w \<noteq> []" "trimmed w" "width w \<le> mN"
    and rest: "\<forall>w \<in> set ws. w \<noteq> [] \<and> trimmed w \<and> width w \<le> mN" by simp_all
  from w(3) m have wW: "width w \<le> mW" by simp
  let ?tW = "if cW = [] then w else cW @ '' '' @ w"
  let ?tN = "if cN = [] then w else cN @ '' '' @ w"
  have sW: "strip (cW @ '' '' @ w) = ?tW" using Cons.prems(3) w(1,2) by (rule strip_join)
  have sN: "strip (cN @ '' '' @ w) = ?tN" using Cons.prems(4) w(1,2) by (rule strip_join)
  have tne: "?tW \<noteq> []" "?tN \<noteq> []" using w by simp_all
  have ttr: "trimmed ?tW" "trimmed ?tN"
    using w Cons.prems(3,4) by (auto simp: trimmed_def)
  have wtN: "width w \<le> width ?tN" using add [of "cN @ '' ''" w] nn [of "cN @ '' ''"] by simp
  have tle: "width ?tW \<le> width ?tN" if "width cW \<le> width cN"
    using that Cons.prems(2) add [of cW "'' '' @ w"] add [of cN "'' '' @ w"] by auto
  have eqW: "pack_words width mW (lW, cW) (w # ws)
      = (if width ?tW \<le> mW then pack_words width mW (lW, ?tW) ws
         else pack_words width mW (lW + 1, w) ws)"
    using wW sW by (simp add: Let_def)
  have eqN: "pack_words width mN (lN, cN) (w # ws)
      = (if width ?tN \<le> mN then pack_words width mN (lN, ?tN) ws
         else pack_words width mN (lN + 1, w) ws)"
    using w(3) sN by (simp add: Let_def)
  have ih: "fst (pack_words width mW (a, c) ws) \<le> fst (pack_words width mN (b, d) ws)"
    if "c \<noteq> []" "d \<noteq> []" "trimmed c" "trimmed d" "a < b \<or> (a = b \<and> width c \<le> width d)"
    for a b c d
    using Cons.IH [OF rest _ that(3) that(4) that(5)] that(1,2) by simp
  show ?case
  proof (cases "width ?tW \<le> mW")
    case fitW: True
    show ?thesis
    proof (cases "width ?tN \<le> mN")
      case fitN: True
      have "lW < lN \<or> (lW = lN \<and> width ?tW \<le> width ?tN)"
        using Cons.prems(5) tle by blast
      from ih [OF tne ttr this] fitW fitN show ?thesis unfolding eqW eqN by simp
    next
      case brN: False
      have "lW < lN + 1 \<or> (lW = lN + 1 \<and> width ?tW \<le> width w)"
        using Cons.prems(5) by auto
      from ih [OF tne(1) w(1) ttr(1) w(2) this] fitW brN show ?thesis unfolding eqW eqN by simp
    qed
  next
    case brW: False
    show ?thesis
    proof (cases "width ?tN \<le> mN")
      case fitN: True
      have "\<not> (lW = lN \<and> width cW \<le> width cN)"
      proof
        assume "lW = lN \<and> width cW \<le> width cN"
        then have "width ?tW \<le> width ?tN" using tle by blast
        with fitN m brW show False by simp
      qed
      with Cons.prems(5) have "lW < lN" by blast
      then have "lW + 1 < lN \<or> (lW + 1 = lN \<and> width w \<le> width ?tN)"
        using wtN by auto
      from ih [OF w(1) tne(2) w(2) ttr(2) this] brW fitN show ?thesis unfolding eqW eqN by simp
    next
      case brN: False
      have "lW + 1 < lN + 1 \<or> (lW + 1 = lN + 1 \<and> width w \<le> width w)"
        using Cons.prems(5) by auto
      from ih [OF w(1) w(1) w(2) w(2) this] brW brN show ?thesis unfolding eqW eqN by simp
    qed
  qed
qed

lemma pack_chars_mono:
  assumes add: "\<And>a b. width (a @ b) = width a + width b" and nn: "\<And>a. 0 \<le> width a"
    and m: "mN \<le> mW"
  shows "lW < lN \<or> (lW = lN \<and> width cW \<le> width cN) \<Longrightarrow>
     fst (pack_chars width mW (lW, cW) cs) \<le> fst (pack_chars width mN (lN, cN) cs)"
proof (induction cs arbitrary: lW cW lN cN)
  case Nil
  then show ?case by auto
next
  case (Cons ch cs)
  let ?tW = "cW @ [ch]"
  let ?tN = "cN @ [ch]"
  have tle: "width ?tW \<le> width ?tN" if "width cW \<le> width cN"
    using that add [of cW "[ch]"] add [of cN "[ch]"] by simp
  have ctN: "width [ch] \<le> width ?tN" using add [of cN "[ch]"] nn [of cN] by simp
  show ?case
  proof (cases "width ?tW \<le> mW")
    case fitW: True
    show ?thesis
    proof (cases "width ?tN \<le> mN")
      case fitN: True
      have "lW < lN \<or> (lW = lN \<and> width ?tW \<le> width ?tN)"
        using Cons.prems tle by blast
      from Cons.IH [OF this] fitW fitN show ?thesis by (simp add: Let_def)
    next
      case brN: False
      have "lW < lN + 1 \<or> (lW = lN + 1 \<and> width ?tW \<le> width [ch])"
        using Cons.prems by auto
      from Cons.IH [OF this] fitW brN show ?thesis by (simp add: Let_def)
    qed
  next
    case brW: False
    show ?thesis
    proof (cases "width ?tN \<le> mN")
      case fitN: True
      have "\<not> (lW = lN \<and> width cW \<le> width cN)"
      proof
        assume "lW = lN \<and> width cW \<le> width cN"
        then have "width ?tW \<le> width ?tN" using tle by blast
        with fitN m brW show False by simp
      qed
      with Cons.prems have "lW < lN" by blast
      then have "lW + 1 < lN \<or> (lW + 1 = lN \<and> width [ch] \<le> width ?tN)"
        using ctN by auto
      from Cons.IH [OF this] brW fitN show ?thesis by (simp add: Let_def)
    next
      case brN: False
      have "lW + 1 < lN + 1 \<or> (lW + 1 = lN + 1 \<and> width [ch] \<le> width [ch])"
        using Cons.prems by auto
      from Cons.IH [OF this] brW brN show ?thesis by (simp add: Let_def)
    qed
  qed
qed


text \<open>
  \<^bold>\<open>C6\<close> (monotonicity of the wrapped height), as the code has it. Let the width measure be
  additive over concatenation and non-negative at the font size (a sum of character widths,
  as the PDF library computes it), and the line height non-negative. For a text none of
  whose words is wider than the usable width of the narrower column, the narrower column
  never yields the smaller height. (A word wider than the column is packed by characters
  onto the end of the current line, which can save a line; see the counterexample.)
\<close>

theorem wrapped_height_monotone:
  assumes add: "\<forall>a b. gsw font_size (a @ b) = gsw font_size a + gsw font_size b"
    and nn: "\<forall>a. 0 \<le> gsw font_size a"
    and lh: "0 \<le> line_hh"
    and le: "narrow \<le> wide"
    and fit: "\<forall>w \<in> set (split_ws str). gsw font_size w \<le> max 0.1 (narrow - 1.6)"
  shows "wrapped_height gsw str wide line_hh font_size
           \<le> wrapped_height gsw str narrow line_hh font_size"
proof (cases "str = []")
  case True
  then show ?thesis by (simp add: wrapped_height_def)
next
  case ne: False
  let ?w = "gsw font_size"
  let ?mN = "max 0.1 (narrow - 1.6)"
  let ?mW = "max 0.1 (wide - 1.6)"
  have m: "?mN \<le> ?mW" using le by simp
  have a: "\<And>a b. ?w (a @ b) = ?w a + ?w b" using add by blast
  have n: "\<And>a. 0 \<le> ?w a" using nn by blast
  have start: "(1::nat) < 1 \<or> ((1::nat) = 1 \<and> ?w [] \<le> ?w [])" by simp
  have lines: "real lW * line_hh + 0.8 \<le> real lN * line_hh + 0.8" if "lW \<le> lN" for lW lN :: nat
    using that lh by (simp add: mult_right_mono)
  show ?thesis
  proof (cases "split_ws str = []")
    case True
    have "fst (pack_chars ?w ?mW (1, []) str) \<le> fst (pack_chars ?w ?mN (1, []) str)"
      by (rule pack_chars_mono [OF a n m]) simp
    from lines [OF this] ne True show ?thesis by (simp add: wrapped_height_def Let_def)
  next
    case False
    have words: "\<forall>w \<in> set (split_ws str). w \<noteq> [] \<and> trimmed w \<and> ?w w \<le> ?mN"
    proof
      fix w assume w: "w \<in> set (split_ws str)"
      then have mem: "w \<in> set (split_acc [] str)" by (simp add: split_ws_def)
      from split_acc_nonempty [OF mem] have wne: "w \<noteq> []" .
      from split_acc_no_space [OF mem] have "\<forall>c \<in> set w. \<not> is_space c" by simp
      with wne have "trimmed w" by (simp add: trimmed_def)
      with wne fit w show "w \<noteq> [] \<and> trimmed w \<and> ?w w \<le> ?mN" by simp
    qed
    have "fst (pack_words ?w ?mW (1, []) (split_ws str)) \<le> fst (pack_words ?w ?mN (1, []) (split_ws str))"
      by (rule pack_words_mono [OF a n m words]) (simp_all add: trimmed_def)
    from lines [OF this] ne False show ?thesis by (simp add: wrapped_height_def Let_def)
  qed
qed

theorem wrapped_height_monotone_witness:
  "wrapped_height sample_gsw ''00 00 00'' 10 4.4 8.2 = 9.6
   \<and> wrapped_height sample_gsw ''00 00 00'' 5 4.4 8.2 = 14
   \<and> wrapped_height sample_gsw ''00 00 00'' 10 4.4 8.2 \<le> wrapped_height sample_gsw ''00 00 00'' 5 4.4 8.2"
proof -
  have add: "\<forall>a b. sample_gsw 8.2 (a @ b) = sample_gsw 8.2 a + sample_gsw 8.2 b"
    by (simp add: sample_gsw_add)
  have nn: "\<forall>a. 0 \<le> sample_gsw 8.2 a"
    by (simp add: sample_gsw_nonneg)
  have fit: "\<forall>w \<in> set (split_ws ''00 00 00''). sample_gsw 8.2 w \<le> max 0.1 (5 - 1.6)"
    by (simp add: split_ws_def is_space_def sample_gsw_def sample_cw_def)
  have v: "wrapped_height sample_gsw ''00 00 00'' 10 4.4 8.2 = 9.6"
    "wrapped_height sample_gsw ''00 00 00'' 5 4.4 8.2 = 14"
    by (simp_all add: wrap_evals)
  have lh: "(0::real) \<le> 4.4" and le: "(5::real) \<le> 10" by simp_all
  from wrapped_height_monotone
         [where gsw = sample_gsw and font_size = "8.2" and str = "''00 00 00''"
            and narrow = 5 and wide = 10 and line_hh = "4.4", OF add nn lh le fit]
       v
  show ?thesis by simp
qed

theorem wrapped_height_monotone_counterexample:
  "(9 :: real) \<le> 10
   \<and> wrapped_height sample_gsw ''0 00000 0'' 10 4.4 8.2 = 14
   \<and> wrapped_height sample_gsw ''0 00000 0'' 9 4.4 8.2 = 9.6
   \<and> \<not> wrapped_height sample_gsw ''0 00000 0'' 10 4.4 8.2 \<le> wrapped_height sample_gsw ''0 00000 0'' 9 4.4 8.2"
  by (simp add: wrap_evals)

section \<open>Monetary arithmetic\<close>

lemma and_then_Inr [simp]: "and_then (Inr x) f = f x"
  by (simp add: and_then_def)

lemma and_then_Inl [simp]: "and_then (Inl e) f = Inl e"
  by (simp add: and_then_def)

lemma and_then_eq_Inr: "and_then m f = Inr y \<longleftrightarrow> (\<exists>x. m = Inr x \<and> f x = Inr y)"
  by (cases m) simp_all

lemmas ndigits_unfold = ndigits.simps
declare ndigits.simps [simp del]

lemma ndigits_pos: "0 < ndigits n"
  by (subst ndigits_unfold) simp

lemma ndigits_le_iff: "0 < k \<Longrightarrow> ndigits n \<le> k \<longleftrightarrow> n < 10 ^ k"
proof (induction n arbitrary: k rule: ndigits.induct)
  case (1 n)
  show ?case
  proof (cases "n < 10")
    case True
    have "(10::nat) ^ 1 \<le> 10 ^ k" using "1.prems" by (intro power_increasing) simp_all
    with True have "n < 10 ^ k" by simp
    moreover from True "1.prems" have "ndigits n \<le> k" by (subst ndigits_unfold) simp
    ultimately show ?thesis by simp
  next
    case False
    then have u: "ndigits n = Suc (ndigits (n div 10))" by (subst ndigits_unfold) simp
    show ?thesis
    proof (cases k)
      case 0
      with "1.prems" show ?thesis by simp
    next
      case (Suc j)
      show ?thesis
      proof (cases "j = 0")
        case True
        with Suc False u ndigits_pos [of "n div 10"] show ?thesis by simp
      next
        case j: False
        then have "ndigits (n div 10) \<le> j \<longleftrightarrow> n div 10 < 10 ^ j"
          using "1.IH" [OF False, of j] by simp
        moreover have "n div 10 < 10 ^ j \<longleftrightarrow> n < 10 ^ Suc j"
          by (simp add: div_less_iff_less_mult mult.commute)
        ultimately show ?thesis using u Suc by simp
      qed
    qed
  qed
qed

lemma ndigits_le_28: "ndigits c \<le> 28 \<longleftrightarrow> c < 10 ^ 28"
  by (rule ndigits_le_iff) simp

lemmas ctx_defs = prec_def Emax_def Emin_def Etiny_def Etop_def

lemmas dec_fix_unfold = dec_fix.simps(1)
declare dec_fix.simps(1) [simp del]
declare strip_zeros.simps [simp del]

lemma dec_fix_cents: "c < 10 ^ 28 \<Longrightarrow> dec_fix (Finite s c (- 2)) = Inr (Finite s c (- 2))"
proof -
  assume c: "c < 10 ^ 28"
  then have "ndigits c \<le> 28" by (simp add: ndigits_le_28)
  then show ?thesis by (simp add: dec_fix_unfold ctx_defs Let_def)
qed

lemma dec_fix_sign: "dec_fix (Finite s c e) = Inr d \<Longrightarrow> \<exists>c' e'. d = Finite s c' e'"
  by (auto simp: dec_fix_unfold Let_def split: if_splits)

lemma quantize_cents_cents:
  "c < 10 ^ 28 \<Longrightarrow> quantize_cents (Finite s c (- 2)) = Inr (Finite s c (- 2))"
proof -
  assume c: "c < 10 ^ 28"
  then have n: "ndigits c \<le> 28" by (simp add: ndigits_le_28)
  show ?thesis
  proof (cases "c = 0")
    case True
    with dec_fix_cents [of 0 s] show ?thesis by simp
  next
    case False
    with n dec_fix_cents [OF c, of s] show ?thesis by (simp add: ctx_defs Let_def)
  qed
qed

lemma quantize_cents_shape:
  assumes "quantize_cents (Finite s c e) = Inr x"
  shows "\<exists>c'. x = Finite s c' (- 2) \<and> c' < 10 ^ 28"
proof (cases "c = 0")
  case True
  with assms dec_fix_cents [of 0 s] show ?thesis by auto
next
  case False
  let ?coeff = "if e \<ge> - 2 then c * 10 ^ nat (e + 2) else round_half_up c (nat (- 2 - e))"
  from assms False
  have "(if int (ndigits ?coeff) + (- 2) - 1 > Emax then Inl InvalidOperation
         else if ndigits ?coeff > prec then Inl InvalidOperation
         else dec_fix (Finite s ?coeff (- 2))) = Inr x"
    by (simp add: Let_def split: if_splits)
  then have n: "ndigits ?coeff \<le> 28" and f: "dec_fix (Finite s ?coeff (- 2)) = Inr x"
    by (simp_all add: prec_def split: if_splits)
  from n have "?coeff < 10 ^ 28" by (simp only: ndigits_le_28)
  with f dec_fix_cents [of ?coeff s] show ?thesis by auto
qed

lemma check_nans_finite [simp]: "check_nans (Finite s c e) (Finite s' c' e') = Inr None"
  by (simp add: check_nans_def)

lemma dec_add_finite [simp]:
  "dec_add (Finite s c e) (Finite s' c' e') = add_finite (Finite s c e) (Finite s' c' e')"
  by (simp add: dec_add_def)

lemma dec_sub_finite [simp]:
  "dec_sub (Finite s c e) (Finite s' c' e') = add_finite (Finite s c e) (Finite (\<not> s') c' e')"
  by (simp add: dec_sub_def)

lemma dec_div_finite [simp]:
  "dec_div (Finite s c e) (Finite s' c' e') = div_finite (Finite s c e) (Finite s' c' e')"
  by (simp add: dec_div_def)

lemma dec_mul_finite [simp]:
  "dec_mul (Finite s c e) (Finite s' c' e') = mul_finite (Finite s c e) (Finite s' c' e')"
  by (simp add: dec_mul_def)

lemma add_cents_opposite:
  assumes "a < 10 ^ 28" "b < 10 ^ 28"
  shows "add_finite (Finite s a (- 2)) (Finite (\<not> s) b (- 2))
     = Inr (if a = b then Finite False 0 (- 2)
            else if b < a then Finite s (a - b) (- 2)
            else Finite (\<not> s) (b - a) (- 2))"
proof -
  have z: "dec_fix (Finite False 0 (- 2)) = Inr (Finite False 0 (- 2))"
    using dec_fix_cents [of 0 False] by simp
  show ?thesis
  proof (cases "a = b")
    case True
    with z show ?thesis by (cases s) (simp_all add: Let_def)
  next
    case ne: False
    show ?thesis
    proof (cases "b < a")
      case True
      then have "a - b < 10 ^ 28" using assms by simp
      from dec_fix_cents [OF this, of s] True ne show ?thesis
        by (cases s) (simp_all add: Let_def nat_diff_distrib' of_nat_diff)
    next
      case False
      with ne have lt: "a < b" by simp
      then have "b - a < 10 ^ 28" using assms by simp
      from dec_fix_cents [OF this, of "\<not> s"] lt ne show ?thesis
        by (cases s) (simp_all add: Let_def nat_diff_distrib' of_nat_diff)
    qed
  qed
qed

lemma add_cents_same:
  "add_finite (Finite s a (- 2)) (Finite s b (- 2)) = dec_fix (Finite s (a + b) (- 2))"
proof (cases "a = 0 \<and> b = 0")
  case True
  then show ?thesis by (simp add: Let_def)
next
  case False
  then have "0 < int a + int b" by auto
  with False show ?thesis
    by (cases s) (auto simp: Let_def nat_add_distrib add.commute)
qed

lemma dec_eq_cents:
  "dec_eq (Finite s1 c1 (- 2)) (Finite s2 c2 (- 2))
     \<longleftrightarrow> (if s1 then - int c1 else int c1) = (if s2 then - int c2 else int c2)"
  by simp

lemma tax_identity_cents:
  assumes cg: "cg < 10 ^ 28" and cx: "cx < 10 ^ 28"
    and sub: "dec_sub (Finite sg cg (- 2)) (Finite sg cx (- 2)) = Inr df"
  shows "quantize_cents df = Inr df
     \<and> (\<exists>sm. dec_add (Finite sg cx (- 2)) df = Inr sm \<and> dec_eq sm (Finite sg cg (- 2)))"
proof -
  from sub add_cents_opposite [OF cg cx, of sg]
  have df: "df = (if cg = cx then Finite False 0 (- 2)
            else if cx < cg then Finite sg (cg - cx) (- 2)
            else Finite (\<not> sg) (cx - cg) (- 2))" by simp
  show ?thesis
  proof (cases "cg = cx")
    case True
    with df have d: "df = Finite False 0 (- 2)" by simp
    have q: "quantize_cents df = Inr df" unfolding d by (rule quantize_cents_cents) simp
    have z: "(0::nat) < 10 ^ 28" by simp
    have "\<exists>sm. dec_add (Finite sg cx (- 2)) df = Inr sm \<and> dec_eq sm (Finite sg cg (- 2))"
    proof (cases sg)
      case True
      with add_cents_opposite [OF cx z, of True] \<open>cg = cx\<close> show ?thesis
        unfolding d by (auto simp del: add_finite.simps dec_eq.simps simp: dec_eq_cents)
    next
      case False
      with add_cents_same [of False cx 0] dec_fix_cents [OF cx, of False] \<open>cg = cx\<close> show ?thesis
        unfolding d by (auto simp del: add_finite.simps dec_eq.simps simp: dec_eq_cents)
    qed
    with q show ?thesis by simp
  next
    case ne: False
    show ?thesis
    proof (cases "cx < cg")
      case True
      with df ne have d: "df = Finite sg (cg - cx) (- 2)" by simp
      from True cg have "cg - cx < 10 ^ 28" by simp
      then have q: "quantize_cents df = Inr df" unfolding d by (rule quantize_cents_cents)
      from True have "cx + (cg - cx) = cg" by simp
      with add_cents_same [of sg cx "cg - cx"] dec_fix_cents [OF cg, of sg]
      have "dec_add (Finite sg cx (- 2)) df = Inr (Finite sg cg (- 2))"
        unfolding d by (simp del: add_finite.simps)
      with q show ?thesis by (auto simp del: dec_eq.simps simp: dec_eq_cents)
    next
      case False
      with ne have lt: "cg < cx" by simp
      with df ne have d: "df = Finite (\<not> sg) (cx - cg) (- 2)" by simp
      from lt cx have b: "cx - cg < 10 ^ 28" by simp
      then have q: "quantize_cents df = Inr df" unfolding d by (rule quantize_cents_cents)
      from lt have e: "cx - (cx - cg) = cg" "cx = cx - cg \<longleftrightarrow> cg = 0" "cx - cg < cx \<longleftrightarrow> cg \<noteq> 0"
        by auto
      from add_cents_opposite [OF cx b, of sg] e
      have "dec_add (Finite sg cx (- 2)) df
          = Inr (if cg = 0 then Finite False 0 (- 2) else Finite sg cg (- 2))"
        unfolding d by (auto simp del: add_finite.simps)
      with q show ?thesis by (auto simp del: dec_eq.simps simp: dec_eq_cents)
    qed
  qed
qed

lemma add_nonneg_sign:
  "add_finite (Finite False a e1) (Finite False b e2) = Inr d \<Longrightarrow> \<exists>c e. d = Finite False c e"
proof -
  assume a: "add_finite (Finite False a e1) (Finite False b e2) = Inr d"
  let ?v = "int a * 10 ^ nat (e1 - min e1 e2) + int b * 10 ^ nat (e2 - min e1 e2)"
  have "0 \<le> ?v" by simp
  then have "\<not> ?v < 0" by linarith
  with a have "\<exists>c. dec_fix (Finite False c (min e1 e2)) = Inr d"
    by (auto simp: Let_def split: if_splits)
  then show ?thesis using dec_fix_sign by blast
qed

lemma div_finite_sign:
  "div_finite (Finite s1 c1 e1) (Finite s2 c2 e2) = Inr q \<Longrightarrow> \<exists>c e. q = Finite (s1 \<noteq> s2) c e"
proof -
  assume a: "div_finite (Finite s1 c1 e1) (Finite s2 c2 e2) = Inr q"
  then have "\<exists>c e. dec_fix (Finite (s1 \<noteq> s2) c e) = Inr q"
    by (simp add: Let_def split: if_splits) blast+
  then show ?thesis using dec_fix_sign by blast
qed


lemmas dec_evals = tax_split_def dec_fix_unfold ndigits_unfold strip_zeros.simps ctx_defs Let_def
  round_half_even_def round_half_up_def py_eq_def check_nans_def



section \<open>Line totals\<close>

lemmas parse_evals = money_to_decimal_def Decimal_of_str_def parse_number_def parse_exponent_def
  strip_def is_space_def is_digit_def digits_val_def digit_val_def lower_c_def Let_def

lemma Decimal_of_str_error: "Decimal_of_str v = Inl e \<Longrightarrow> e = InvalidOperation"
  by (auto simp: Decimal_of_str_def Let_def split: if_splits option.splits)

lemma money_to_decimal_error: "money_to_decimal s = Inl e \<Longrightarrow> e = InvalidOperation"
  by (auto simp: money_to_decimal_def Let_def split: if_splits dest: Decimal_of_str_error)

lemma line_total_invalid:
  assumes "isl (money_to_decimal qty_text) \<or> isl (money_to_decimal price_text)"
  shows "line_total qty_text price_text = Inr (Finite False 0 (- 2))"
proof (cases "money_to_decimal qty_text")
  case (Inl e)
  with money_to_decimal_error [OF Inl] show ?thesis by (simp add: line_total_def)
next
  case (Inr qty)
  with assms obtain e where p: "money_to_decimal price_text = Inl e"
    by (cases "money_to_decimal price_text") auto
  with money_to_decimal_error [OF p] Inr show ?thesis by (simp add: line_total_def)
qed

lemma dec_str_zero_cents: "dec_str (Finite False 0 (- 2)) = ''0.00''"
  by (simp add: Let_def digit_char_def)

lemma add_to_gross_invalid:
  "isl (money_to_decimal total_text) \<Longrightarrow> add_to_gross gross total_text = Inr gross"
proof -
  assume "isl (money_to_decimal total_text)"
  then obtain e where p: "money_to_decimal total_text = Inl e"
    by (cases "money_to_decimal total_text") auto
  with money_to_decimal_error [OF p] show ?thesis by (simp add: add_to_gross_def)
qed





lemma scale10_powi: "scale10 e = 10 powi e"
  by (simp add: scale10_def power_int_def field_simps)

lemma scale10_add: "scale10 (a + b) = scale10 a * scale10 b"
  by (simp add: scale10_powi power_int_add)

lemma scale10_nonneg: "0 \<le> e \<Longrightarrow> scale10 e = 10 ^ nat e"
  by (simp add: scale10_def)

lemma scale10_neg: "e < 0 \<Longrightarrow> scale10 e = 1 / 10 ^ nat (- e)"
  by (simp add: scale10_def)

lemma floor_half_up: "\<lfloor>(of_nat c :: rat) / 10 ^ k + 1 / 2\<rfloor> = int (round_half_up c k)"
proof -
  let ?p = "(10::nat) ^ k"
  let ?q = "c div ?p" and ?r = "c mod ?p"
  have p: "(0::rat) < of_nat ?p" by simp
  have c: "(of_nat c :: rat) = of_nat ?q * of_nat ?p + of_nat ?r"
    by (metis div_mult_mod_eq of_nat_add of_nat_mult)
  have r: "(of_nat ?r :: rat) < of_nat ?p" by (simp del: of_nat_power of_nat_numeral)
  define y :: rat where "y = of_nat ?r / of_nat ?p"
  have x: "(of_nat c :: rat) / 10 ^ k + 1 / 2 = of_nat ?q + y + 1 / 2"
    unfolding y_def using p by (subst c) (simp add: field_simps)
  have y0: "0 \<le> y" and y1: "y < 1" unfolding y_def using r p by simp_all
  show ?thesis
  proof (cases "2 * ?r \<ge> ?p")
    case True
    then have "(of_nat ?p :: rat) \<le> 2 * of_nat ?r"
      by (metis of_nat_le_iff of_nat_mult of_nat_numeral)
    then have h: "1 / 2 \<le> y" unfolding y_def using p by (simp add: field_simps)
    have "\<lfloor>of_nat ?q + y + 1 / 2\<rfloor> = int ?q + 1"
    proof (rule floor_unique)
      show "of_int (int ?q + 1) \<le> of_nat ?q + y + 1 / 2" using h by simp
      show "of_nat ?q + y + 1 / 2 < of_int (int ?q + 1) + 1" using y1 by simp
    qed
    with True show ?thesis unfolding x by (simp add: round_half_up_def Let_def)
  next
    case False
    then have "2 * ?r < ?p" by simp
    then have "2 * (of_nat ?r :: rat) < of_nat ?p"
      by (metis of_nat_less_iff of_nat_mult of_nat_numeral)
    then have h: "y < 1 / 2" unfolding y_def using p by (simp add: field_simps)
    have "\<lfloor>of_nat ?q + y + 1 / 2\<rfloor> = int ?q"
    proof (rule floor_unique)
      show "of_int (int ?q) \<le> of_nat ?q + y + 1 / 2" using y0 by simp
      show "of_nat ?q + y + 1 / 2 < of_int (int ?q) + 1" using h by simp
    qed
    with False show ?thesis unfolding x by (simp add: round_half_up_def Let_def)
  qed
qed

lemma pow_bound_exp:
  assumes "0 < c" "c * 10 ^ k < (10::nat) ^ 28"
  shows "k < 28"
proof (rule ccontr)
  assume "\<not> k < 28"
  then have "(10::nat) ^ 28 \<le> 10 ^ k" by (intro power_increasing) simp_all
  also have "\<dots> \<le> c * 10 ^ k" using assms(1) by simp
  finally show False using assms(2) by simp
qed

lemma pow_bound_coeff:
  assumes "c * 10 ^ k < (10::nat) ^ 28"
  shows "c < 10 ^ 28"
proof -
  have "c \<le> c * 10 ^ k" by simp
  then show ?thesis using assms by (rule le_less_trans)
qed

lemma ndigits_scaled:
  assumes "0 < c" "c * 10 ^ k < (10::nat) ^ 28"
  shows "ndigits c + k \<le> 28"
proof -
  from assms have k: "k < 28" by (rule pow_bound_exp)
  then have eq: "(10::nat) ^ 28 = 10 ^ (28 - k) * 10 ^ k" by (simp flip: power_add)
  from assms(2) have "c * 10 ^ k < 10 ^ (28 - k) * 10 ^ k" by (simp only: eq)
  then have "c < 10 ^ (28 - k)" by simp
  with k have "ndigits c \<le> 28 - k" by (simp add: ndigits_le_iff)
  with k show ?thesis by simp
qed

lemma dec_fix_noop:
  assumes "0 < c" "c * 10 ^ nat (e + 2) < 10 ^ 28" "Etiny \<le> e"
  shows "dec_fix (Finite s c e) = Inr (Finite s c e)"
proof -
  from assms(2) have "c < 10 ^ 28" by (rule pow_bound_coeff)
  then have "ndigits c \<le> 28" by (simp add: ndigits_le_28)
  then have m0: "int (ndigits c) + e - int prec \<le> e" by (simp add: prec_def)
  from assms(1,2) have "nat (e + 2) < 28" by (rule pow_bound_exp)
  then have "e \<le> 25" by simp
  with m0 have a: "\<not> int (ndigits c) + e - int prec > Etop" by (simp add: ctx_defs)
  from m0 assms(3) have b: "\<not> e < max (int (ndigits c) + e - int prec) Etiny" by simp
  from assms(1) have "c \<noteq> 0" by simp
  with a b show ?thesis by (simp only: dec_fix_unfold Let_def if_False)
qed

lemma round_half_up_le_div: "round_half_up c k \<le> c div 10 ^ k + 1"
  by (simp add: round_half_up_def Let_def)

lemma cents_coeff_bound:
  assumes "c * 10 ^ nat (e + 2) < 10 ^ 28"
  shows "cents_coeff c e < 10 ^ 28"
proof (cases "e \<ge> - 2")
  case True
  with assms show ?thesis by (simp add: cents_coeff_def)
next
  case False
  from assms have c: "c < 10 ^ 28" by (rule pow_bound_coeff)
  from False have "(10::nat) ^ 1 \<le> 10 ^ nat (- 2 - e)" by (intro power_increasing) simp_all
  then have "c div 10 ^ nat (- 2 - e) \<le> c div 10 ^ 1" by (intro div_le_mono2) simp_all
  also have "\<dots> < 10 ^ 27" using c by simp
  finally have "c div 10 ^ nat (- 2 - e) + 1 < 10 ^ 28" by simp
  with round_half_up_le_div [of c "nat (- 2 - e)"] have "round_half_up c (nat (- 2 - e)) < 10 ^ 28"
    by linarith
  with False show ?thesis by (simp add: cents_coeff_def)
qed

lemma quantize_cents_exact:
  assumes c: "c * 10 ^ nat (e + 2) < 10 ^ 28"
  shows "quantize_cents (Finite s c e) = Inr (Finite s (cents_coeff c e) (- 2))"
proof (cases "c = 0")
  case True
  have "cents_coeff 0 e = 0" by (simp add: cents_coeff_def round_half_up_def)
  with True dec_fix_cents [of 0 s] show ?thesis by simp
next
  case False
  then have "ndigits c + nat (e + 2) \<le> 28" using c by (intro ndigits_scaled) simp_all
  then have n: "int (ndigits c) + e + 2 \<le> 28" by linarith
  have b: "cents_coeff c e < 10 ^ 28" using c by (rule cents_coeff_bound)
  then have n': "ndigits (cents_coeff c e) \<le> 28" by (simp add: ndigits_le_28)
  have "quantize_cents (Finite s c e)
      = (let coeff = cents_coeff c e
         in if int (ndigits coeff) + (- 2) - 1 > Emax then Inl InvalidOperation
            else if ndigits coeff > prec then Inl InvalidOperation
            else dec_fix (Finite s coeff (- 2)))"
    using False n by (simp add: cents_coeff_def ctx_defs)
  also have "\<dots> = dec_fix (Finite s (cents_coeff c e) (- 2))"
    using n' by (simp add: Let_def ctx_defs)
  also have "\<dots> = Inr (Finite s (cents_coeff c e) (- 2))" using b by (rule dec_fix_cents)
  finally show ?thesis .
qed

lemma cents_coeff_floor:
  "int (cents_coeff c e) = \<lfloor>of_nat c * scale10 e * 100 + 1 / 2\<rfloor>"
proof (cases "e \<ge> - 2")
  case True
  have "scale10 e * 100 = scale10 (e + 2)" by (simp add: scale10_add) (simp add: scale10_def)
  also have "\<dots> = 10 ^ nat (e + 2)" using True by (simp add: scale10_nonneg)
  finally have "of_nat c * scale10 e * 100 = (of_nat (c * 10 ^ nat (e + 2)) :: rat)"
    by (simp add: mult.assoc)
  moreover have "\<lfloor>(of_nat n :: rat) + 1 / 2\<rfloor> = int n" for n
    by (rule floor_unique) simp_all
  ultimately show ?thesis using True by (simp only: cents_coeff_def if_True)
next
  case False
  then have neg: "e + 2 < 0" by simp
  have "scale10 e * 100 = scale10 (e + 2)" by (simp add: scale10_add) (simp add: scale10_def)
  also have "\<dots> = 1 / 10 ^ nat (- 2 - e)" using neg scale10_neg [of "e + 2"] by (simp add: algebra_simps)
  finally have "of_nat c * scale10 e * 100 = (of_nat c :: rat) / 10 ^ nat (- 2 - e)"
    by (simp add: mult.assoc)
  with floor_half_up [of c "nat (- 2 - e)"] False show ?thesis
    by (simp only: cents_coeff_def if_False)
qed

lemma line_total_exact:
  assumes q: "money_to_decimal qty_text = Inr (Finite s1 c1 e1)"
    and p: "money_to_decimal price_text = Inr (Finite s2 c2 e2)"
    and c: "c1 * c2 * 10 ^ nat (e1 + e2 + 2) < 10 ^ 28" and lo: "Etiny \<le> e1 + e2"
  shows "line_total qty_text price_text
     = Inr (Finite (s1 \<noteq> s2) (cents_coeff (c1 * c2) (e1 + e2)) (- 2))"
proof (cases "c1 * c2 = 0")
  case True
  have z: "cents_coeff 0 (e1 + e2) = 0" by (simp add: cents_coeff_def round_half_up_def)
  have m: "dec_mul (Finite s1 c1 e1) (Finite s2 c2 e2)
      = Inr (Finite (s1 \<noteq> s2) 0 (min (max (e1 + e2) Etiny) Emax))"
    using True by (simp add: dec_fix_unfold)
  have x: "quantize_cents (Finite (s1 \<noteq> s2) 0 (min (max (e1 + e2) Etiny) Emax))
      = Inr (Finite (s1 \<noteq> s2) 0 (- 2))"
    using dec_fix_cents [of 0 "s1 \<noteq> s2"] by simp
  show ?thesis unfolding line_total_def q p and_then_Inr m x True z by simp
next
  case False
  then have pos: "0 < c1 * c2" by simp
  have m: "dec_mul (Finite s1 c1 e1) (Finite s2 c2 e2) = Inr (Finite (s1 \<noteq> s2) (c1 * c2) (e1 + e2))"
    using dec_fix_noop [OF pos c lo] by simp
  from q p m quantize_cents_exact [OF c, of "s1 \<noteq> s2"] show ?thesis
    by (simp add: line_total_def del: quantize_cents.simps)
qed

lemma scale10_pos: "0 < scale10 e"
  by (simp add: scale10_def)





end
